theory Spec2Isabelle
  imports Main "HOL-Library.Word"
begin

unbundle bit_operations_syntax

section \<open>Unix timestamps (db/postgres.go)\<close>

text \<open>
  \<^verbatim>\<open>UnixToTime\<close> and \<^verbatim>\<open>TimeToUnix\<close> are one-line wrappers around \<^verbatim>\<open>time.Unix(unix, 0)\<close>
  and \<^verbatim>\<open>t.Unix()\<close>. The type \<^verbatim>\<open>time.Time\<close> and these two operations belong to Go's
  standard library, not to the repository; they are transcribed here from the library's
  representation: a \<^verbatim>\<open>uint64\<close> field \<^verbatim>\<open>wall\<close>, an \<^verbatim>\<open>int64\<close> field \<^verbatim>\<open>ext\<close> and a location.
  When the top bit of \<^verbatim>\<open>wall\<close> is clear, \<^verbatim>\<open>ext\<close> holds the seconds since 1 January of year 1;
  when it is set, bits 30 to 62 of \<^verbatim>\<open>wall\<close> hold the seconds since 1885 and \<^verbatim>\<open>ext\<close> a monotonic
  clock reading. The low 30 bits of \<^verbatim>\<open>wall\<close> are the nanoseconds. Both integer types are
  64-bit words, so every addition wraps around as Go's does.
\<close>

datatype Location = Local | UTC | Zone string

record Time =
  wall :: "64 word"
  ext :: "64 word"
  loc :: Location

definition secondsPerDay :: "64 word" where
  "secondsPerDay = 86400"

definition unixToInternal :: "64 word" where
  "unixToInternal = (1969 * 365 + 1969 div 4 - 1969 div 100 + 1969 div 400) * secondsPerDay"

definition internalToUnix :: "64 word" where
  "internalToUnix = - unixToInternal"

definition wallToInternal :: "64 word" where
  "wallToInternal = (1884 * 365 + 1884 div 4 - 1884 div 100 + 1884 div 400) * secondsPerDay"

definition hasMonotonic :: "64 word" where
  "hasMonotonic = push_bit 63 1"

definition nsecShift :: nat where
  "nsecShift = 30"

definition nsecMask :: "64 word" where
  "nsecMask = push_bit 30 1 - 1"

text \<open>\<^verbatim>\<open>func (t *Time) nsec() int32\<close>: the nanoseconds within the second.\<close>

definition nsec :: "Time \<Rightarrow> 32 word" where
  "nsec t = ucast (wall t AND nsecMask)"

text \<open>\<^verbatim>\<open>func (t *Time) sec() int64\<close>: the seconds since 1 January of year 1.\<close>

definition sec :: "Time \<Rightarrow> 64 word" where
  "sec t =
     (if wall t AND hasMonotonic \<noteq> 0
      then wallToInternal + drop_bit (nsecShift + 1) (push_bit 1 (wall t))
      else ext t)"

text \<open>\<^verbatim>\<open>func (t Time) Unix() int64\<close>, which is \<^verbatim>\<open>t.sec() + internalToUnix\<close>.\<close>

definition Time_Unix :: "Time \<Rightarrow> 64 word" where
  "Time_Unix t = sec t + internalToUnix"

text \<open>Go's \<^verbatim>\<open>/\<close> on \<^verbatim>\<open>int64\<close>: the quotient is truncated towards zero.\<close>

definition int64_quo :: "64 word \<Rightarrow> 64 word \<Rightarrow> 64 word" where
  "int64_quo a b = word_of_int (sgn (sint a) * sgn (sint b) * (\<bar>sint a\<bar> div \<bar>sint b\<bar>))"

text \<open>
  \<^verbatim>\<open>func Unix(sec int64, nsec int64) Time\<close>. A nanosecond argument outside \<^verbatim>\<open>[0, 1e9)\<close> is
  first carried into the seconds; the result is \<^verbatim>\<open>Time{uint64(int32(nsec)), sec + unixToInternal, Local}\<close>.
\<close>

definition time_Unix :: "64 word \<Rightarrow> 64 word \<Rightarrow> Time" where
  "time_Unix s ns =
     (let (s', ns') =
        (if ns <s 0 \<or> 1000000000 \<le>s ns
         then (let n = int64_quo ns 1000000000;
                   s1 = s + n;
                   ns1 = ns - n * 1000000000
               in if ns1 <s 0 then (s1 - 1, ns1 + 1000000000) else (s1, ns1))
         else (s, ns))
      in \<lparr>wall = scast (ucast ns' :: 32 word), ext = s' + unixToInternal, loc = Local\<rparr>)"

text \<open>\<^verbatim>\<open>func (t Time) Equal(u Time) bool\<close>: the two values denote the same instant.\<close>

definition Time_Equal :: "Time \<Rightarrow> Time \<Rightarrow> bool" where
  "Time_Equal t u =
     (if wall t AND wall u AND hasMonotonic \<noteq> 0 then ext t = ext u
      else sec t = sec u \<and> nsec t = nsec u)"

text \<open>The two functions of the repository.\<close>

definition UnixToTime :: "64 word \<Rightarrow> Time" where
  "UnixToTime unix = time_Unix unix 0"

definition TimeToUnix :: "Time \<Rightarrow> 64 word" where
  "TimeToUnix t = Time_Unix t"

text \<open>
  What "truncated to whole seconds" means for a \<^verbatim>\<open>time.Time\<close>: the same count of seconds,
  no nanoseconds, no monotonic reading, the location kept. This is the value that
  \<^verbatim>\<open>t.Truncate(time.Second)\<close> denotes.
\<close>

definition truncate_to_seconds :: "Time \<Rightarrow> Time" where
  "truncate_to_seconds t = \<lparr>wall = 0, ext = sec t, loc = loc t\<rparr>"

section \<open>The comparison run (package main)\<close>

text \<open>
  The run works on a PostgreSQL database through \<^verbatim>\<open>db.Exec\<close>. The statements it sends are
  modelled by what they do to the tables they name.

  \<^item> The account tables \<^verbatim>\<open>vault_accounts\<close>, \<^verbatim>\<open><platform>_accounts\<close> and
    \<^verbatim>\<open><platform>_endpoints\<close> are not created by the program. Their columns are those of the
    test schema (\<^verbatim>\<open>account_id TEXT, account_name TEXT, platform TEXT\<close>), every one nullable.
  \<^item> The comparison tables \<^verbatim>\<open>not_vaulted_<platform>\<close> and \<^verbatim>\<open>orphaned_<platform>\<close> have the
    single column \<^verbatim>\<open>account_name TEXT PRIMARY KEY\<close>; a table is the list of its names in
    insertion order.
  \<^item> \<^verbatim>\<open>filtered_vault\<close> is a temporary table of the session.

  A table name is the string that \<^verbatim>\<open>fmt.Sprintf\<close> builds. The model covers platform values
  that make this string one plain identifier; the connection itself is taken to work, so
  a statement fails only with an error of the SQL engine.
\<close>

record account_row =
  col_account_id :: "string option"
  col_account_name :: "string option"
  col_platform :: "string option"

datatype sql_error =
    UndefinedTable string
  | DuplicateTable string
  | UniqueViolation string
  | NotNullViolation string

record database =
  account_tables :: "string \<rightharpoonup> account_row list"
  comparison_tables :: "string \<rightharpoonup> string list"
  filtered_vault :: "account_row list option"

subsection \<open>The operators of the queries\<close>

text \<open>
  \<^verbatim>\<open>ILIKE\<close>: in the pattern \<^verbatim>\<open>%\<close> stands for any sequence of characters, \<^verbatim>\<open>_\<close> for any
  one character, and a backslash takes the next character literally. Letters are compared
  without regard to case (the ASCII letters here). PostgreSQL rejects a pattern that ends
  in a lone backslash; \<^verbatim>\<open>filterVaultAccounts\<close> never builds one, since its pattern ends in
  \<^verbatim>\<open>%\<close>, and the parser below reads such a backslash as itself.
\<close>

datatype like_item = AnySequence | AnyChar | Literal char

fun like_pattern :: "string \<Rightarrow> like_item list" where
  "like_pattern [] = []"
| "like_pattern [c] =
     (if c = CHR ''%'' then [AnySequence] else if c = CHR ''_'' then [AnyChar] else [Literal c])"
| "like_pattern (c # d # ds) =
     (if c = CHR ''%'' then AnySequence # like_pattern (d # ds)
      else if c = CHR ''_'' then AnyChar # like_pattern (d # ds)
      else if c = CHR 0x5C then Literal d # like_pattern ds
      else Literal c # like_pattern (d # ds))"

fun like_match :: "like_item list \<Rightarrow> string \<Rightarrow> bool" where
  "like_match [] s = (s = [])"
| "like_match (AnySequence # ps) [] = like_match ps []"
| "like_match (AnySequence # ps) (c # cs) =
     (like_match ps (c # cs) \<or> like_match (AnySequence # ps) cs)"
| "like_match (AnyChar # ps) [] = False"
| "like_match (AnyChar # ps) (c # cs) = like_match ps cs"
| "like_match (Literal a # ps) [] = False"
| "like_match (Literal a # ps) (c # cs) = (a = c \<and> like_match ps cs)"

definition lower_ascii :: "char \<Rightarrow> char" where
  "lower_ascii c =
     (case map_of (zip ''ABCDEFGHIJKLMNOPQRSTUVWXYZ'' ''abcdefghijklmnopqrstuvwxyz'') c of
        Some l \<Rightarrow> l
      | None \<Rightarrow> c)"

definition ilike :: "string \<Rightarrow> string \<Rightarrow> bool" where
  "ilike s pat = like_match (like_pattern (map lower_ascii pat)) (map lower_ascii s)"

text \<open>
  The condition \<^verbatim>\<open>account_name ILIKE $1\<close> of a \<^verbatim>\<open>WHERE\<close> clause: a row whose name is
  \<^verbatim>\<open>NULL\<close> is not selected.
\<close>

definition where_ilike :: "string \<Rightarrow> account_row \<Rightarrow> bool" where
  "where_ilike pat r = (case col_account_name r of None \<Rightarrow> False | Some n \<Rightarrow> ilike n pat)"

text \<open>
  The join condition \<^verbatim>\<open>p.account_name = v.account_name\<close>: it holds only for two names
  that are not \<^verbatim>\<open>NULL\<close> and are the same string.
\<close>

definition join_on :: "account_row \<Rightarrow> account_row \<Rightarrow> bool" where
  "join_on p v =
     (case (col_account_name p, col_account_name v) of
        (Some a, Some b) \<Rightarrow> a = b
      | _ \<Rightarrow> False)"

text \<open>
  \<^verbatim>\<open>FROM p LEFT JOIN v ON ...\<close>: every row of the left table with each right row it joins,
  or once with no right row (all its columns \<^verbatim>\<open>NULL\<close>) when it joins none.
\<close>

definition left_join ::
  "account_row list \<Rightarrow> account_row list \<Rightarrow> (account_row \<times> account_row option) list" where
  "left_join ps vs =
     concat (map (\<lambda>p. case filter (join_on p) vs of
                          [] \<Rightarrow> [(p, None)]
                        | ms \<Rightarrow> map (\<lambda>v. (p, Some v)) ms) ps)"

text \<open>
  \<^verbatim>\<open>SELECT p.account_name FROM p LEFT JOIN filtered_vault v ON p.account_name = v.account_name
  WHERE v.account_name IS NULL\<close>, the query of both inserts.
\<close>

definition select_unmatched :: "account_row list \<Rightarrow> account_row list \<Rightarrow> string option list" where
  "select_unmatched ps vs =
     map (\<lambda>(p, v). col_account_name p)
       (filter (\<lambda>(p, v). case v of None \<Rightarrow> True | Some r \<Rightarrow> col_account_name r = None)
          (left_join ps vs))"

text \<open>
  \<^verbatim>\<open>INSERT INTO t (account_name) SELECT ...\<close> into a table whose one column is the primary
  key: the selected rows are added one after the other; a \<^verbatim>\<open>NULL\<close> or a name the table
  already holds fails the statement, and a failed statement inserts nothing.
\<close>

fun insert_rows :: "string \<Rightarrow> string list \<Rightarrow> string option list \<Rightarrow> sql_error + string list" where
  "insert_rows t rows [] = Inr rows"
| "insert_rows t rows (None # ns) = Inl (NotNullViolation t)"
| "insert_rows t rows (Some n # ns) =
     (if n \<in> set rows then Inl (UniqueViolation t) else insert_rows t (rows @ [n]) ns)"

text \<open>
  A name in a \<^verbatim>\<open>FROM\<close> clause is looked up among the temporary tables of the session
  first. \<^verbatim>\<open>filtered_vault\<close> is the only temporary table there is.
\<close>

definition lookup_table :: "database \<Rightarrow> string \<Rightarrow> account_row list option" where
  "lookup_table db t =
     (if t = ''filtered_vault'' \<and> filtered_vault db \<noteq> None then filtered_vault db
      else account_tables db t)"

subsection \<open>The functions of the program\<close>

text \<open>
  \<^verbatim>\<open>filterVaultAccounts\<close>: \<^verbatim>\<open>CREATE TEMP TABLE filtered_vault AS SELECT * FROM vault_accounts
  WHERE account_name ILIKE $1\<close> with the argument \<^verbatim>\<open>"%" + searchTerm + "%"\<close>. The statement has
  no \<^verbatim>\<open>IF NOT EXISTS\<close>: it fails when the session already has the temporary table.
\<close>

definition filterVaultAccounts :: "database \<Rightarrow> string \<Rightarrow> sql_error + database" where
  "filterVaultAccounts db searchTerm =
     (case lookup_table db ''vault_accounts'' of
        None \<Rightarrow> Inl (UndefinedTable ''vault_accounts'')
      | Some vault \<Rightarrow>
          (case filtered_vault db of
             Some _ \<Rightarrow> Inl (DuplicateTable ''filtered_vault'')
           | None \<Rightarrow>
               Inr (db\<lparr>filtered_vault :=
                        Some (filter (where_ilike (''%'' @ searchTerm @ ''%'')) vault)\<rparr>)))"

text \<open>\<^verbatim>\<open>CREATE TABLE IF NOT EXISTS t (account_name TEXT PRIMARY KEY)\<close>.\<close>

definition create_table_if_not_exists :: "database \<Rightarrow> string \<Rightarrow> database" where
  "create_table_if_not_exists db t =
     (case comparison_tables db t of
        Some _ \<Rightarrow> db
      | None \<Rightarrow> db\<lparr>comparison_tables := (comparison_tables db)(t \<mapsto> [])\<rparr>)"

text \<open>\<^verbatim>\<open>createComparisonTables\<close>: the two \<^verbatim>\<open>CREATE TABLE IF NOT EXISTS\<close> of one platform.\<close>

definition createComparisonTables :: "database \<Rightarrow> string \<Rightarrow> sql_error + database" where
  "createComparisonTables db platform =
     Inr (create_table_if_not_exists
            (create_table_if_not_exists db (''not_vaulted_'' @ platform))
            (''orphaned_'' @ platform))"

text \<open>
  The statement shared by \<^verbatim>\<open>insertNotVaulted\<close> and \<^verbatim>\<open>insertOrphaned\<close>, which differ in the
  two table names only: insert into \<open>target\<close> the names of \<open>source\<close> that join no row of
  \<^verbatim>\<open>filtered_vault\<close>.
\<close>

definition insert_unmatched :: "database \<Rightarrow> string \<Rightarrow> string \<Rightarrow> sql_error + database" where
  "insert_unmatched db target source =
     (case comparison_tables db target of
        None \<Rightarrow> Inl (UndefinedTable target)
      | Some rows \<Rightarrow>
          (case lookup_table db source of
             None \<Rightarrow> Inl (UndefinedTable source)
           | Some ps \<Rightarrow>
               (case lookup_table db ''filtered_vault'' of
                  None \<Rightarrow> Inl (UndefinedTable ''filtered_vault'')
                | Some vs \<Rightarrow>
                    (case insert_rows target rows (select_unmatched ps vs) of
                       Inl e \<Rightarrow> Inl e
                     | Inr rows' \<Rightarrow>
                         Inr (db\<lparr>comparison_tables := (comparison_tables db)(target \<mapsto> rows')\<rparr>)))))"

definition insertNotVaulted :: "database \<Rightarrow> string \<Rightarrow> sql_error + database" where
  "insertNotVaulted db platform =
     insert_unmatched db (''not_vaulted_'' @ platform) (platform @ ''_accounts'')"

definition insertOrphaned :: "database \<Rightarrow> string \<Rightarrow> sql_error + database" where
  "insertOrphaned db platform =
     insert_unmatched db (''orphaned_'' @ platform) (platform @ ''_endpoints'')"

text \<open>
  \<^verbatim>\<open>runComparisonForPlatform\<close>: the four steps in order, returning at the first error. No
  transaction spans them, so the result is the error (if any) together with the database
  as the last completed statement left it.
\<close>

definition runComparisonForPlatform ::
  "database \<Rightarrow> string \<Rightarrow> string \<Rightarrow> sql_error option \<times> database" where
  "runComparisonForPlatform db platform searchTerm =
     (case createComparisonTables db platform of
        Inl err \<Rightarrow> (Some err, db)
      | Inr db1 \<Rightarrow>
          (case filterVaultAccounts db1 searchTerm of
             Inl err \<Rightarrow> (Some err, db1)
           | Inr db2 \<Rightarrow>
               (case insertNotVaulted db2 platform of
                  Inl err \<Rightarrow> (Some err, db2)
                | Inr db3 \<Rightarrow>
                    (case insertOrphaned db3 platform of
                       Inl err \<Rightarrow> (Some err, db3)
                     | Inr db4 \<Rightarrow> (None, db4)))))"

subsection \<open>Reading the result, and the comparison the specification describes\<close>

text \<open>The rows of a comparison table; a table that does not exist has none.\<close>

definition table_rows :: "database \<Rightarrow> string \<Rightarrow> string list" where
  "table_rows db t = (case comparison_tables db t of None \<Rightarrow> [] | Some rows \<Rightarrow> rows)"


text \<open>
  The specification's comparison, in its own words: the keys of an account set are its
  \<^verbatim>\<open>account_id\<close> values, and a difference keeps the keys of the first set that are not, by
  exact equality, keys of the second. \<open>notVaulted = keys(platform) - keys(vault)\<close> and
  \<open>orphaned = keys(vault) - keys(platform)\<close>.
\<close>

definition account_keys :: "account_row list \<Rightarrow> string list" where
  "account_keys rows =
     concat (map (\<lambda>r. case col_account_id r of None \<Rightarrow> [] | Some k \<Rightarrow> [k]) rows)"

definition keys_difference :: "account_row list \<Rightarrow> account_row list \<Rightarrow> string list" where
  "keys_difference a b = filter (\<lambda>k. k \<notin> set (account_keys b)) (account_keys a)"

text \<open>
  The constraint \<^verbatim>\<open>PRIMARY KEY\<close> of the comparison tables: no table holds a name twice.
\<close>

definition primary_keys_hold :: "database \<Rightarrow> bool" where
  "primary_keys_hold db \<longleftrightarrow> (\<forall>t rows. comparison_tables db t = Some rows \<longrightarrow> distinct rows)"

subsection \<open>Example databases\<close>

definition account :: "string \<Rightarrow> account_row" where
  "account n = \<lparr>col_account_id = Some n, col_account_name = Some n, col_platform = Some ''ad''\<rparr>"

text \<open>One account, held by the vault and by the platform; its name does not contain "admin".\<close>

definition db_vaulted_service_account :: database where
  "db_vaulted_service_account =
     \<lparr>account_tables = [''vault_accounts'' \<mapsto> [account ''svc_backup''],
                         ''ad_accounts'' \<mapsto> [account ''svc_backup''],
                         ''ad_endpoints'' \<mapsto> []],
      comparison_tables = Map.empty,
      filtered_vault = None\<rparr>"

text \<open>A vault account that the platform does not have, and a platform account that the vault does not have.\<close>

definition db_vault_only_account :: database where
  "db_vault_only_account =
     \<lparr>account_tables = [''vault_accounts'' \<mapsto> [account ''admin_b''],
                         ''ad_accounts'' \<mapsto> [account ''root_ep''],
                         ''ad_endpoints'' \<mapsto> [account ''root_ep'']],
      comparison_tables = Map.empty,
      filtered_vault = None\<rparr>"

text \<open>A database with several accounts on each side.\<close>

definition db_mixed :: database where
  "db_mixed =
     \<lparr>account_tables = [''vault_accounts'' \<mapsto> [account ''Admin_A'', account ''svc_backup''],
                         ''ad_accounts'' \<mapsto> [account ''Admin_A'', account ''svc_backup'', account ''root''],
                         ''ad_endpoints'' \<mapsto> [account ''Admin_A'', account ''ep_only'']],
      comparison_tables = Map.empty,
      filtered_vault = None\<rparr>"



section \<open>The debug transport (httpdbg/transport.go)\<close>

text \<open>
  A body is an \<^verbatim>\<open>io.ReadCloser\<close>. What matters of it here is what successive \<^verbatim>\<open>Read\<close> calls
  deliver: some chunks of bytes, and then either \<^verbatim>\<open>io.EOF\<close> or an error. Bytes are
  characters, as in \<^verbatim>\<open>string(body)\<close>.
\<close>

datatype io_error = ReadError string

datatype reader = EOF | Fail io_error | Chunk string reader

text \<open>
  \<^verbatim>\<open>io.ReadAll\<close> reads until \<^verbatim>\<open>io.EOF\<close> or an error and returns the bytes read so far with
  the error (\<^verbatim>\<open>nil\<close>, here \<open>None\<close>, at the end of the data).
\<close>

fun ReadAll :: "reader \<Rightarrow> string \<times> io_error option" where
  "ReadAll EOF = ([], None)"
| "ReadAll (Fail e) = ([], Some e)"
| "ReadAll (Chunk bs r) = (case ReadAll r of (rest, err) \<Rightarrow> (bs @ rest, err))"

text \<open>\<^verbatim>\<open>io.NopCloser(bytes.NewBuffer(buf))\<close>: a reader over the bytes of \<open>buf\<close>.\<close>

definition NewBuffer :: "string \<Rightarrow> reader" where
  "NewBuffer buf = (if buf = [] then EOF else Chunk buf EOF)"

text \<open>
  The fields of \<^verbatim>\<open>http.Request\<close> and \<^verbatim>\<open>http.Response\<close> that the transport touches. A header
  maps a name to its values; a request body may be \<^verbatim>\<open>nil\<close>.
\<close>

record Request =
  Method :: string
  URL :: string
  Request_Header :: "(string \<times> string list) list"
  Request_Body :: "reader option"

record Response =
  Status :: string
  StatusCode :: int
  Response_Header :: "(string \<times> string list) list"
  Response_Body :: reader

datatype transport_error = TransportError string

type_synonym RoundTripper = "Request \<Rightarrow> transport_error + Response"

record DebugTransport =
  Transport :: "RoundTripper option"

text \<open>
  \<^verbatim>\<open>logRequest\<close> and \<^verbatim>\<open>logResponse\<close> write to standard output and change nothing else; their
  value here is the text they print. (Go ranges over a header map in no fixed order; the
  text below has the order of the list.)
\<close>

definition newline :: string where
  "newline = [CHR 0x0A]"

fun join_words :: "string list \<Rightarrow> string" where
  "join_words [] = []"
| "join_words [v] = v"
| "join_words (v # w # ws) = v @ '' '' @ join_words (w # ws)"

definition print_header :: "(string \<times> string list) list \<Rightarrow> string" where
  "print_header h = concat (map (\<lambda>(k, v). k @ '': ['' @ join_words v @ '']'' @ newline) h)"

definition print_body :: "string \<Rightarrow> string" where
  "print_body body =
     (if length body > 0 then newline @ ''Body:'' @ newline @ body @ newline else [])"

definition logRequest :: "Request \<Rightarrow> string \<Rightarrow> string" where
  "logRequest req body =
     ''======= HTTP REQUEST ======='' @ newline
     @ ''URL: '' @ Method req @ '' '' @ URL req @ newline
     @ print_header (Request_Header req)
     @ print_body body
     @ ''============================'' @ newline"

definition logResponse :: "Response \<Rightarrow> string \<Rightarrow> string" where
  "logResponse resp body =
     ''======= HTTP RESPONSE ======='' @ newline
     @ ''Status: '' @ Status resp @ newline
     @ print_header (Response_Header resp)
     @ print_body body
     @ ''============================='' @ newline"

text \<open>
  The first block of \<^verbatim>\<open>RoundTrip\<close>: a body that is not \<^verbatim>\<open>nil\<close> is read to its end, the error
  of \<^verbatim>\<open>io.ReadAll\<close> is discarded, and the body is replaced by a buffer over the bytes read.
\<close>

definition clone_request_body :: "Request \<Rightarrow> string \<times> Request" where
  "clone_request_body req =
     (case Request_Body req of
        None \<Rightarrow> ([], req)
      | Some b \<Rightarrow>
          (let requestBody = fst (ReadAll b)
           in (requestBody, req\<lparr>Request_Body := Some (NewBuffer requestBody)\<rparr>)))"

text \<open>
  \<^verbatim>\<open>RoundTrip\<close>. Its outcome is what it printed, the request as it was handed to the
  underlying transport, and what it returned. The transport used when the field is \<^verbatim>\<open>nil\<close>,
  \<^verbatim>\<open>http.DefaultTransport\<close>, is a parameter.
\<close>

record RoundTrip_outcome =
  stdout :: string
  forwarded :: Request
  returned :: "transport_error + Response"

definition RoundTrip :: "RoundTripper \<Rightarrow> DebugTransport \<Rightarrow> Request \<Rightarrow> RoundTrip_outcome" where
  "RoundTrip DefaultTransport d req =
     (let transport = (case Transport d of None \<Rightarrow> DefaultTransport | Some t \<Rightarrow> t);
          (requestBody, req') = clone_request_body req;
          out1 = logRequest req' requestBody
      in case transport req' of
           Inl err \<Rightarrow> \<lparr>stdout = out1, forwarded = req', returned = Inl err\<rparr>
         | Inr resp \<Rightarrow>
             (let responseBody = fst (ReadAll (Response_Body resp));
                  resp' = resp\<lparr>Response_Body := NewBuffer responseBody\<rparr>
              in \<lparr>stdout = out1 @ logResponse resp' responseBody, forwarded = req',
                   returned = Inr resp'\<rparr>))"

text \<open>The transport that \<^verbatim>\<open>RoundTrip\<close> wraps.\<close>

definition underlying :: "RoundTripper \<Rightarrow> DebugTransport \<Rightarrow> RoundTripper" where
  "underlying DefaultTransport d = (case Transport d of None \<Rightarrow> DefaultTransport | Some t \<Rightarrow> t)"

text \<open>
  Examples: a login request whose body arrives in two chunks, a transport whose response
  body breaks off with an error after its first bytes, and an upload whose body does.
\<close>

definition login_request :: Request where
  "login_request =
     \<lparr>Method = ''POST'', URL = ''https://your-cyberark-api.com/login'',
      Request_Header = [(''Content-Type'', [''application/x-www-form-urlencoded''])],
      Request_Body = Some (Chunk ''username=u&'' (Chunk ''password=p'' EOF))\<rparr>"

definition broken_body_transport :: RoundTripper where
  "broken_body_transport req =
     Inr \<lparr>Status = ''200 OK'', StatusCode = 200,
          Response_Header = [(''Content-Type'', [''text/plain''])],
          Response_Body = Chunk ''token=ab'' (Fail (ReadError ''connection reset by peer''))\<rparr>"

definition interrupted_upload :: Request where
  "interrupted_upload =
     \<lparr>Method = ''PUT'', URL = ''https://your-cyberark-api.com/accounts'',
      Request_Header = [(''Content-Type'', [''text/csv''])],
      Request_Body = Some (Chunk ''name,platform'' (Fail (ReadError ''unexpected EOF'')))\<rparr>"

section \<open>The discrepancy history and the reconciliation engine\<close>

text \<open>
  The test file runs \<^verbatim>\<open>NewAccountComparer(db).CompareAccounts(platform)\<close> against the table
  \<^verbatim>\<open>account_discrepancy_history\<close>. The code of that comparer is not among the sources, which
  hold only its test and the schema the test creates. The store and the engine below are
  therefore written from the specification (sections 3, 4.1, 4.2 and 4.3), one definition
  for each operation it names. Timestamps are integers.
\<close>

text \<open>Modelled from the spec: the enumeration \<open>discrepancy_type\<close> of section 3.\<close>

datatype discrepancy_type = NotVaulted | Orphaned

text \<open>Modelled from the spec: the side argument of \<^verbatim>\<open>FetchAccounts(platform, side)\<close>, section 6.\<close>

datatype side = Vault | Platform

text \<open>Modelled from the spec: the error classes of section 7.\<close>

datatype engine_error = FetchError | ConflictError | NotFoundError | InvariantViolation

text \<open>Modelled from the spec: \<open>AccountRecord\<close>, section 3.\<close>

record AccountRecord =
  account_id :: string
  account_name :: string
  platform :: string

text \<open>
  Modelled from the spec: \<open>AccountSet\<close>, a mapping from \<open>account_id\<close> to the record, with
  unique keys. It is the list of its records, in the order the engine goes through them;
  that no key occurs twice is a hypothesis where it matters.
\<close>

type_synonym AccountSet = "AccountRecord list"

text \<open>
  Modelled from the spec: \<open>DiscrepancyRecord\<close>, section 3. It has the three fields of an
  account record and six more; the identifier is called \<open>rec_id\<close> here.
\<close>

record DiscrepancyRecord = AccountRecord +
  rec_id :: nat
  discrepancy_type :: discrepancy_type
  first_detected :: int
  last_seen :: int
  is_resolved :: bool
  resolved_at :: "int option"

text \<open>
  Modelled from the spec: the persisted history, one table of records, and the counter
  from which the store assigns identifiers (the test schema's \<^verbatim>\<open>AUTOINCREMENT\<close>).
\<close>

record DiscrepancyHistoryStore =
  records :: "DiscrepancyRecord list"
  next_id :: nat

text \<open>Modelled from the spec: the key \<open>(platform, discrepancy_type, account_id)\<close> of a record.\<close>

definition key_of :: "DiscrepancyRecord \<Rightarrow> string \<times> discrepancy_type \<times> string" where
  "key_of r = (platform r, discrepancy_type r, account_id r)"

definition same_key :: "DiscrepancyRecord \<Rightarrow> DiscrepancyRecord \<Rightarrow> bool" where
  "same_key r r' \<longleftrightarrow>
     platform r = platform r' \<and> discrepancy_type r = discrepancy_type r'
     \<and> account_id r = account_id r'"

text \<open>
  Modelled from the spec: \<open>GetOpenRecords(platform)\<close>, filtered by type: the records of the
  platform and type with \<open>is_resolved = false\<close>.
\<close>

definition GetOpenRecords ::
  "DiscrepancyHistoryStore \<Rightarrow> string \<Rightarrow> discrepancy_type \<Rightarrow> DiscrepancyRecord list" where
  "GetOpenRecords st p ty =
     filter (\<lambda>r. platform r = p \<and> discrepancy_type r = ty \<and> \<not> is_resolved r) (records st)"

text \<open>
  Modelled from the spec: \<open>InsertRecord(rec) -> id\<close>, which fails with \<open>ConflictError\<close> if
  an open record already exists for the same key. Otherwise the record is appended under
  the next identifier.
\<close>

definition InsertRecord ::
  "DiscrepancyHistoryStore \<Rightarrow> DiscrepancyRecord \<Rightarrow> engine_error + nat \<times> DiscrepancyHistoryStore" where
  "InsertRecord st rec =
     (if list_ex (\<lambda>r. \<not> is_resolved r \<and> same_key r rec) (records st) then Inl ConflictError
      else Inr (next_id st,
                st\<lparr>records := records st @ [rec\<lparr>rec_id := next_id st\<rparr>],
                   next_id := Suc (next_id st)\<rparr>))"

text \<open>
  Modelled from the spec: \<open>TouchLastSeen(id, at)\<close>, which updates \<open>last_seen\<close> on an existing
  open record. The specification names no failure for it.
\<close>

definition touch :: "nat \<Rightarrow> int \<Rightarrow> DiscrepancyRecord \<Rightarrow> DiscrepancyRecord" where
  "touch i at r = (if rec_id r = i \<and> \<not> is_resolved r then r\<lparr>last_seen := at\<rparr> else r)"

definition TouchLastSeen :: "DiscrepancyHistoryStore \<Rightarrow> nat \<Rightarrow> int \<Rightarrow> DiscrepancyHistoryStore" where
  "TouchLastSeen st i at = st\<lparr>records := map (touch i at) (records st)\<rparr>"

text \<open>
  Modelled from the spec: \<open>MarkResolved(id, at)\<close>, which fails with \<open>NotFoundError\<close> if the
  record is absent or already resolved, and otherwise sets \<open>is_resolved\<close> and \<open>resolved_at\<close>.
\<close>

definition resolve :: "nat \<Rightarrow> int \<Rightarrow> DiscrepancyRecord \<Rightarrow> DiscrepancyRecord" where
  "resolve i at r =
     (if rec_id r = i \<and> \<not> is_resolved r then r\<lparr>is_resolved := True, resolved_at := Some at\<rparr> else r)"

definition MarkResolved ::
  "DiscrepancyHistoryStore \<Rightarrow> nat \<Rightarrow> int \<Rightarrow> engine_error + DiscrepancyHistoryStore" where
  "MarkResolved st i at =
     (if list_ex (\<lambda>r. rec_id r = i \<and> \<not> is_resolved r) (records st)
      then Inr (st\<lparr>records := map (resolve i at) (records st)\<rparr>)
      else Inl NotFoundError)"

text \<open>
  Modelled from the spec: \<open>Compare(vault, platform) -> (notVaulted, orphaned)\<close> of section
  4.1, with \<open>notVaulted = keys(platform) - keys(vault)\<close> and
  \<open>orphaned = keys(vault) - keys(platform)\<close>, by exact equality of \<open>account_id\<close>.
\<close>

definition account_ids :: "AccountSet \<Rightarrow> string list" where
  "account_ids s = map account_id s"

definition Compare :: "AccountSet \<Rightarrow> AccountSet \<Rightarrow> string list \<times> string list" where
  "Compare vaultSet platformSet =
     (filter (\<lambda>k. k \<notin> set (account_ids vaultSet)) (account_ids platformSet),
      filter (\<lambda>k. k \<notin> set (account_ids platformSet)) (account_ids vaultSet))"

text \<open>Modelled from the spec: \<open>Summary{created, updated, resolved}\<close>, the counts a run returns.\<close>

record Summary =
  created :: nat
  updated :: nat
  resolved :: nat

text \<open>
  Modelled from the spec: step 3a of section 4.3, \<open>openByKey\<close>, the mapping from
  \<open>account_id\<close> to the currently open record of one platform and type.
\<close>

definition openByKey :: "DiscrepancyRecord list \<Rightarrow> string \<rightharpoonup> DiscrepancyRecord" where
  "openByKey opens = map_of (map (\<lambda>r. (account_id r, r)) opens)"

text \<open>
  Modelled from the spec: the record that step 3b inserts,
  \<open>{platform, discrepancy_type, account_id: key, account_name, first_detected: at,
  last_seen: at, is_resolved: false}\<close>. The store assigns the identifier.
\<close>

definition new_record ::
  "string \<Rightarrow> discrepancy_type \<Rightarrow> AccountRecord \<Rightarrow> int \<Rightarrow> DiscrepancyRecord" where
  "new_record p ty a at =
     \<lparr>account_id = account_id a, account_name = account_name a, platform = p,
      rec_id = 0, discrepancy_type = ty, first_detected = at, last_seen = at,
      is_resolved = False, resolved_at = None\<rparr>"

text \<open>
  Modelled from the spec: step 3b, for each observed key: when the key has an open record,
  \<open>TouchLastSeen\<close> (counted as updated), otherwise \<open>InsertRecord\<close> (counted as created). A
  failure ends the loop with the error.
\<close>

fun observe_all ::
  "(string \<rightharpoonup> DiscrepancyRecord) \<Rightarrow> string \<Rightarrow> discrepancy_type \<Rightarrow> int \<Rightarrow> AccountRecord list
     \<Rightarrow> Summary \<times> DiscrepancyHistoryStore \<Rightarrow> engine_error + Summary \<times> DiscrepancyHistoryStore" where
  "observe_all opn p ty at [] acc = Inr acc"
| "observe_all opn p ty at (a # as) (sm, st) =
     (case opn (account_id a) of
        Some r \<Rightarrow>
          observe_all opn p ty at as (sm\<lparr>updated := Suc (updated sm)\<rparr>, TouchLastSeen st (rec_id r) at)
      | None \<Rightarrow>
          (case InsertRecord st (new_record p ty a at) of
             Inl e \<Rightarrow> Inl e
           | Inr (i, st') \<Rightarrow> observe_all opn p ty at as (sm\<lparr>created := Suc (created sm)\<rparr>, st')))"

text \<open>
  Modelled from the spec: step 3c, for each open record whose key is not observed:
  \<open>MarkResolved\<close> (counted as resolved).
\<close>

fun resolve_all ::
  "int \<Rightarrow> string list \<Rightarrow> DiscrepancyRecord list
     \<Rightarrow> Summary \<times> DiscrepancyHistoryStore \<Rightarrow> engine_error + Summary \<times> DiscrepancyHistoryStore" where
  "resolve_all at observed [] acc = Inr acc"
| "resolve_all at observed (r # rs) (sm, st) =
     (if account_id r \<in> set observed then resolve_all at observed rs (sm, st)
      else (case MarkResolved st (rec_id r) at of
              Inl e \<Rightarrow> Inl e
            | Inr st' \<Rightarrow> resolve_all at observed rs (sm\<lparr>resolved := Suc (resolved sm)\<rparr>, st')))"

text \<open>
  Modelled from the spec: step 3 for one discrepancy type. Two open records for one key
  are an \<open>InvariantViolation\<close>, never a silent choice of one.
\<close>

definition reconcile ::
  "string \<Rightarrow> discrepancy_type \<Rightarrow> int \<Rightarrow> AccountRecord list
     \<Rightarrow> Summary \<times> DiscrepancyHistoryStore \<Rightarrow> engine_error + Summary \<times> DiscrepancyHistoryStore" where
  "reconcile p ty at observed acc =
     (let opens = GetOpenRecords (snd acc) p ty in
      if \<not> distinct (map account_id opens) then Inl InvariantViolation
      else (case observe_all (openByKey opens) p ty at observed acc of
              Inl e \<Rightarrow> Inl e
            | Inr acc' \<Rightarrow> resolve_all at (map account_id observed) opens acc'))"

text \<open>The records of an account set whose keys are in a list of keys.\<close>

definition members :: "AccountSet \<Rightarrow> string list \<Rightarrow> AccountRecord list" where
  "members s ks = filter (\<lambda>a. account_id a \<in> set ks) s"

text \<open>
  Modelled from the spec: \<open>Run(platform, at) -> Summary\<close> of section 4.3. Both sets are
  fetched (a failure aborts the run with nothing written), compared, and reconciled for
  \<open>NotVaulted\<close> and then for \<open>Orphaned\<close>. The writes are committed as one unit: a run that
  fails returns the error and no store, so the store it was given is the one that stays.
  The account source is the parameter \<open>FetchAccounts\<close>.
\<close>

definition Run ::
  "(string \<Rightarrow> side \<Rightarrow> engine_error + AccountSet) \<Rightarrow> DiscrepancyHistoryStore \<Rightarrow> string \<Rightarrow> int
     \<Rightarrow> engine_error + Summary \<times> DiscrepancyHistoryStore" where
  "Run FetchAccounts st p at =
     (case FetchAccounts p Vault of
        Inl e \<Rightarrow> Inl e
      | Inr vaultSet \<Rightarrow>
          (case FetchAccounts p Platform of
             Inl e \<Rightarrow> Inl e
           | Inr platformSet \<Rightarrow>
               (case Compare vaultSet platformSet of
                  (notVaulted, orphaned) \<Rightarrow>
                    (case reconcile p NotVaulted at (members platformSet notVaulted)
                            (\<lparr>created = 0, updated = 0, resolved = 0\<rparr>, st) of
                       Inl e \<Rightarrow> Inl e
                     | Inr acc \<Rightarrow> reconcile p Orphaned at (members vaultSet orphaned) acc))))"

subsection \<open>Properties of a store, and what a run observes\<close>

text \<open>
  The invariant of section 3, "at most one open record per key": among the open records
  no key occurs twice.
\<close>

definition open_unique :: "DiscrepancyHistoryStore \<Rightarrow> bool" where
  "open_unique st \<longleftrightarrow> distinct (map key_of (filter (\<lambda>r. \<not> is_resolved r) (records st)))"

text \<open>
  Identifiers are what the store assigned: no two records share one, and each is below the
  counter.
\<close>

definition wf_store :: "DiscrepancyHistoryStore \<Rightarrow> bool" where
  "wf_store st \<longleftrightarrow>
     distinct (map rec_id (records st)) \<and> list_all (\<lambda>r. rec_id r < next_id st) (records st)"

text \<open>The history rows of one key, in the order they were created.\<close>

definition key_rows ::
  "DiscrepancyHistoryStore \<Rightarrow> string \<times> discrepancy_type \<times> string \<Rightarrow> DiscrepancyRecord list" where
  "key_rows st k = filter (\<lambda>r. key_of r = k) (records st)"

text \<open>The keys, and the accounts, that a run observes for a discrepancy type.\<close>

definition observed_keys :: "AccountSet \<Rightarrow> AccountSet \<Rightarrow> discrepancy_type \<Rightarrow> string list" where
  "observed_keys vaultSet platformSet ty =
     (case ty of NotVaulted \<Rightarrow> fst (Compare vaultSet platformSet)
               | Orphaned \<Rightarrow> snd (Compare vaultSet platformSet))"

definition observed_accounts :: "AccountSet \<Rightarrow> AccountSet \<Rightarrow> discrepancy_type \<Rightarrow> AccountRecord list" where
  "observed_accounts vaultSet platformSet ty =
     (case ty of NotVaulted \<Rightarrow> members platformSet (fst (Compare vaultSet platformSet))
               | Orphaned \<Rightarrow> members vaultSet (snd (Compare vaultSet platformSet)))"

text \<open>
  The second invariant of section 3, for a history written up to time \<open>t\<close>: in every record
  \<open>first_detected \<le> last_seen\<close>, a resolved record has a \<open>resolved_at\<close> with
  \<open>resolved_at \<ge> last_seen\<close>, and no timestamp is later than \<open>t\<close>.
\<close>

definition in_order_upto :: "int \<Rightarrow> DiscrepancyRecord \<Rightarrow> bool" where
  "in_order_upto t r \<longleftrightarrow>
     first_detected r \<le> last_seen r \<and> last_seen r \<le> t
     \<and> (is_resolved r \<longrightarrow>
          (case resolved_at r of None \<Rightarrow> False | Some ra \<Rightarrow> last_seen r \<le> ra \<and> ra \<le> t))"

definition history_upto :: "int \<Rightarrow> DiscrepancyHistoryStore \<Rightarrow> bool" where
  "history_upto t st \<longleftrightarrow> list_all (in_order_upto t) (records st)"

text \<open>
  A sequence of runs as the caller of section 6 makes them, one after the other, each with
  its account source, platform and timestamp. A run that fails leaves the history as it
  was (section 7).
\<close>

fun run_all ::
  "DiscrepancyHistoryStore \<Rightarrow> ((string \<Rightarrow> side \<Rightarrow> engine_error + AccountSet) \<times> string \<times> int) list
     \<Rightarrow> DiscrepancyHistoryStore" where
  "run_all st [] = st"
| "run_all st ((F, p, at) # rs) =
     (case Run F st p at of
        Inl e \<Rightarrow> run_all st rs
      | Inr (sm, st') \<Rightarrow> run_all st' rs)"

subsection \<open>Closed forms used in the proofs\<close>

text \<open>
  The loops address records by identifier. Their combined effect is described by the
  functions below: the records a loop of inserts appends, a set of identifiers touched or
  resolved at once, and the same update selected by key.
\<close>

fun fresh_records ::
  "(string \<rightharpoonup> DiscrepancyRecord) \<Rightarrow> string \<Rightarrow> discrepancy_type \<Rightarrow> int \<Rightarrow> AccountRecord list
     \<Rightarrow> nat \<Rightarrow> DiscrepancyRecord list" where
  "fresh_records opn p ty at [] n = []"
| "fresh_records opn p ty at (a # as) n =
     (case opn (account_id a) of
        Some r \<Rightarrow> fresh_records opn p ty at as n
      | None \<Rightarrow> (new_record p ty a at)\<lparr>rec_id := n\<rparr> # fresh_records opn p ty at as (Suc n))"

definition touch_in :: "nat set \<Rightarrow> int \<Rightarrow> DiscrepancyRecord \<Rightarrow> DiscrepancyRecord" where
  "touch_in T at r = (if rec_id r \<in> T \<and> \<not> is_resolved r then r\<lparr>last_seen := at\<rparr> else r)"

definition resolve_in :: "nat set \<Rightarrow> int \<Rightarrow> DiscrepancyRecord \<Rightarrow> DiscrepancyRecord" where
  "resolve_in R at r =
     (if rec_id r \<in> R \<and> \<not> is_resolved r then r\<lparr>is_resolved := True, resolved_at := Some at\<rparr> else r)"

definition touched_ids :: "(string \<rightharpoonup> DiscrepancyRecord) \<Rightarrow> AccountRecord list \<Rightarrow> nat set" where
  "touched_ids opn obs = {rec_id r | r a. a \<in> set obs \<and> opn (account_id a) = Some r}"

definition resolved_ids :: "DiscrepancyRecord list \<Rightarrow> string list \<Rightarrow> nat set" where
  "resolved_ids opens ks = {rec_id r | r. r \<in> set opens \<and> account_id r \<notin> set ks}"

definition set_last_seen :: "int \<Rightarrow> DiscrepancyRecord \<Rightarrow> DiscrepancyRecord" where
  "set_last_seen at r = r\<lparr>last_seen := at\<rparr>"

definition set_resolved :: "int \<Rightarrow> DiscrepancyRecord \<Rightarrow> DiscrepancyRecord" where
  "set_resolved at r = r\<lparr>is_resolved := True, resolved_at := Some at\<rparr>"

definition reconciled ::
  "string \<Rightarrow> discrepancy_type \<Rightarrow> string set \<Rightarrow> int \<Rightarrow> DiscrepancyRecord \<Rightarrow> DiscrepancyRecord" where
  "reconciled p ty K at r =
     (if platform r = p \<and> discrepancy_type r = ty \<and> \<not> is_resolved r
      then (if account_id r \<in> K then set_last_seen at r else set_resolved at r)
      else r)"

definition run_update ::
  "string \<Rightarrow> AccountSet \<Rightarrow> AccountSet \<Rightarrow> int \<Rightarrow> DiscrepancyRecord \<Rightarrow> DiscrepancyRecord" where
  "run_update p V P at r =
     (if platform r = p \<and> \<not> is_resolved r
      then (if account_id r \<in> set (observed_keys V P (discrepancy_type r))
            then set_last_seen at r else set_resolved at r)
      else r)"

subsection \<open>The scenario of the tests\<close>

text \<open>
  Account \<^verbatim>\<open>D\<close> on platform \<^verbatim>\<open>azure\<close>; an account source that returns two given sets; the
  empty history; and the history after the platform alone has \<^verbatim>\<open>D\<close> (time 10), after the
  vault has it too (time 20), and after the vault has lost it again (time 30).
\<close>

definition acct :: "string \<Rightarrow> AccountRecord" where
  "acct k = \<lparr>account_id = k, account_name = ''user_'' @ k, platform = ''azure''\<rparr>"

definition fetch_from :: "AccountSet \<Rightarrow> AccountSet \<Rightarrow> string \<Rightarrow> side \<Rightarrow> engine_error + AccountSet" where
  "fetch_from v p = (\<lambda>pl s. case s of Vault \<Rightarrow> Inr v | Platform \<Rightarrow> Inr p)"

definition empty_store :: DiscrepancyHistoryStore where
  "empty_store = \<lparr>records = [], next_id = 1\<rparr>"

definition discrepancy_D :: "nat \<Rightarrow> int \<Rightarrow> DiscrepancyRecord" where
  "discrepancy_D i t =
     \<lparr>account_id = ''D'', account_name = ''user_D'', platform = ''azure'',
      rec_id = i, discrepancy_type = NotVaulted, first_detected = t, last_seen = t,
      is_resolved = False, resolved_at = None\<rparr>"

definition store_detected :: DiscrepancyHistoryStore where
  "store_detected = \<lparr>records = [discrepancy_D 1 10], next_id = 2\<rparr>"

definition store_resolved :: DiscrepancyHistoryStore where
  "store_resolved =
     \<lparr>records = [(discrepancy_D 1 10)\<lparr>is_resolved := True, resolved_at := Some 20\<rparr>], next_id = 2\<rparr>"

definition store_reappeared :: DiscrepancyHistoryStore where
  "store_reappeared =
     \<lparr>records = [(discrepancy_D 1 10)\<lparr>is_resolved := True, resolved_at := Some 20\<rparr>,
                 discrepancy_D 2 30],
      next_id = 3\<rparr>"

section \<open>Round trip of the timestamp conversions\<close>

lemma time_Unix_zero_nsec:
  "time_Unix s 0 = \<lparr>wall = 0, ext = s + unixToInternal, loc = Local\<rparr>"
  by (simp add: time_Unix_def word_sle_eq word_sless_alt)

text \<open>
  Claim C9. \<^verbatim>\<open>TimeToUnix\<close> and \<^verbatim>\<open>UnixToTime\<close> form a round trip: every \<^verbatim>\<open>int64\<close> value
  \<open>u\<close> comes back unchanged (also where \<open>u + unixToInternal\<close> overflows: the wrap-around is
  undone by the subtraction), and every time \<open>t\<close> comes back as the same instant cut to
  whole seconds: the count of seconds is kept, the nanoseconds are zero, and the result is
  \<^verbatim>\<open>Equal\<close> to the truncation of \<open>t\<close>.
\<close>

theorem TimeToUnix_UnixToTime_round_trip:
  "TimeToUnix (UnixToTime u) = u
   \<and> sec (UnixToTime (TimeToUnix t)) = sec t
   \<and> nsec (UnixToTime (TimeToUnix t)) = 0
   \<and> Time_Equal (UnixToTime (TimeToUnix t)) (truncate_to_seconds t)"
  by (simp add: Time_Equal_def truncate_to_seconds_def TimeToUnix_def UnixToTime_def
      time_Unix_zero_nsec Time_Unix_def sec_def nsec_def internalToUnix_def)

section \<open>The statements of the comparison run\<close>

lemma select_unmatched_eq:
  "select_unmatched ps vs =
     map col_account_name (filter (\<lambda>p. \<forall>v\<in>set vs. \<not> join_on p v) ps)"
proof (induction ps)
  case Nil
  show ?case by (simp add: select_unmatched_def left_join_def)
next
  case (Cons p ps)
  have tail: "select_unmatched (p # ps) vs =
      map (\<lambda>(p, v). col_account_name p)
       (filter (\<lambda>(p, v). case v of None \<Rightarrow> True | Some r \<Rightarrow> col_account_name r = None)
          (case filter (join_on p) vs of [] \<Rightarrow> [(p, None)] | ms \<Rightarrow> map (\<lambda>v. (p, Some v)) ms))
      @ select_unmatched ps vs"
    by (simp add: select_unmatched_def left_join_def)
  show ?case
  proof (cases "filter (join_on p) vs")
    case Nil
    then have "\<forall>v\<in>set vs. \<not> join_on p v"
      by (simp add: filter_empty_conv)
    with Nil Cons.IH tail show ?thesis by simp
  next
    case (Cons m ms)
    then have "m \<in> set (filter (join_on p) vs)" by simp
    then have "m \<in> set vs" "join_on p m" by simp_all
    then have ex: "\<not> (\<forall>v\<in>set vs. \<not> join_on p v)" by blast
    have "\<forall>v\<in>set (m # ms). col_account_name v \<noteq> None"
      using Cons [symmetric] by (auto simp: join_on_def split: option.splits)
    then have "filter (\<lambda>(p, v). case v of None \<Rightarrow> True | Some r \<Rightarrow> col_account_name r = None)
                 (map (\<lambda>v. (p, Some v)) (m # ms)) = []"
      by (auto simp: filter_empty_conv)
    with Cons tail Cons.IH ex show ?thesis by simp
  qed
qed

lemma insert_rows_Inr_iff:
  "insert_rows t rows ns = Inr rows' \<longleftrightarrow>
     None \<notin> set ns \<and> distinct (map the ns) \<and> set (map the ns) \<inter> set rows = {}
     \<and> rows' = rows @ map the ns"
proof (induction ns arbitrary: rows)
  case Nil
  show ?case by auto
next
  case (Cons n ns)
  show ?case
  proof (cases n)
    case None
    then show ?thesis by simp
  next
    case (Some a)
    show ?thesis using Cons.IH [of "rows @ [a]"] Some by auto
  qed
qed

lemma insert_rows_error:
  "insert_rows t rows ns = Inl e \<Longrightarrow> e = NotNullViolation t \<or> e = UniqueViolation t"
  by (induction t rows ns rule: insert_rows.induct) (auto split: if_splits)

lemma accounts_not_filtered_vault [simp]: "p @ ''_accounts'' \<noteq> ''filtered_vault''"
proof
  assume "p @ ''_accounts'' = ''filtered_vault''"
  then have "last (p @ ''_accounts'') = last ''filtered_vault''" by simp
  then show False by simp
qed

lemma endpoints_not_filtered_vault [simp]: "p @ ''_endpoints'' \<noteq> ''filtered_vault''"
proof
  assume "p @ ''_endpoints'' = ''filtered_vault''"
  then have "last (p @ ''_endpoints'') = last ''filtered_vault''" by simp
  then show False by simp
qed

lemma lookup_accounts [simp]:
  "lookup_table db (p @ ''_accounts'') = account_tables db (p @ ''_accounts'')"
  by (simp add: lookup_table_def)

lemma lookup_endpoints [simp]:
  "lookup_table db (p @ ''_endpoints'') = account_tables db (p @ ''_endpoints'')"
  by (simp add: lookup_table_def)

lemma lookup_vault_accounts [simp]:
  "lookup_table db ''vault_accounts'' = account_tables db ''vault_accounts''"
  by (simp add: lookup_table_def)

lemma lookup_filtered_vault [simp]:
  "filtered_vault db = Some vs \<Longrightarrow> lookup_table db ''filtered_vault'' = Some vs"
  by (simp add: lookup_table_def)

lemma createComparisonTables_eq:
  "createComparisonTables db p =
     Inr (db\<lparr>comparison_tables := (comparison_tables db)
            (''not_vaulted_'' @ p \<mapsto> table_rows db (''not_vaulted_'' @ p),
             ''orphaned_'' @ p \<mapsto> table_rows db (''orphaned_'' @ p))\<rparr>)"
  by (auto simp: createComparisonTables_def create_table_if_not_exists_def table_rows_def
      fun_upd_idem split: option.splits)

lemma filterVaultAccounts_Inr:
  assumes "filterVaultAccounts db s = Inr db'"
  obtains V where "account_tables db ''vault_accounts'' = Some V" "filtered_vault db = None"
    "db' = db\<lparr>filtered_vault := Some (filter (where_ilike (''%'' @ s @ ''%'')) V)\<rparr>"
  using assms by (auto simp: filterVaultAccounts_def split: option.splits)

lemma insert_unmatched_Inr:
  assumes "insert_unmatched db target source = Inr db'"
  obtains rows ps vs where
    "comparison_tables db target = Some rows" "lookup_table db source = Some ps"
    "lookup_table db ''filtered_vault'' = Some vs"
    "None \<notin> set (select_unmatched ps vs)"
    "set (map the (select_unmatched ps vs)) \<inter> set rows = {}"
    "db' = db\<lparr>comparison_tables :=
              (comparison_tables db)(target \<mapsto> rows @ map the (select_unmatched ps vs))\<rparr>"
  using assms
  by (auto simp: insert_unmatched_def insert_rows_Inr_iff split: option.splits sum.splits)

lemma run_steps:
  assumes "fst (runComparisonForPlatform db p s) = None"
  obtains db1 db2 db3 db4 where
    "createComparisonTables db p = Inr db1" "filterVaultAccounts db1 s = Inr db2"
    "insertNotVaulted db2 p = Inr db3" "insertOrphaned db3 p = Inr db4"
    "snd (runComparisonForPlatform db p s) = db4"
  using assms by (auto simp: runComparisonForPlatform_def split: sum.splits)

text \<open>
  A run that returns no error has found the three account tables and no temporary table,
  has met no \<^verbatim>\<open>NULL\<close> name among the selected rows, and leaves exactly this database.
\<close>

lemma run_success:
  assumes ok: "fst (runComparisonForPlatform db p s) = None"
  obtains V P E where
    "account_tables db ''vault_accounts'' = Some V"
    "account_tables db (p @ ''_accounts'') = Some P"
    "account_tables db (p @ ''_endpoints'') = Some E"
    "filtered_vault db = None"
    "None \<notin> set (select_unmatched P (filter (where_ilike (''%'' @ s @ ''%'')) V))"
    "None \<notin> set (select_unmatched E (filter (where_ilike (''%'' @ s @ ''%'')) V))"
    "snd (runComparisonForPlatform db p s) =
       db\<lparr>comparison_tables := (comparison_tables db)
            (''not_vaulted_'' @ p \<mapsto> table_rows db (''not_vaulted_'' @ p) @
                map the (select_unmatched P (filter (where_ilike (''%'' @ s @ ''%'')) V)),
             ''orphaned_'' @ p \<mapsto> table_rows db (''orphaned_'' @ p) @
                map the (select_unmatched E (filter (where_ilike (''%'' @ s @ ''%'')) V))),
          filtered_vault := Some (filter (where_ilike (''%'' @ s @ ''%'')) V)\<rparr>"
proof -
  from ok obtain db1 db2 db3 db4 where
    s1: "createComparisonTables db p = Inr db1" and s2: "filterVaultAccounts db1 s = Inr db2" and
    s3: "insertNotVaulted db2 p = Inr db3" and s4: "insertOrphaned db3 p = Inr db4" and
    res: "snd (runComparisonForPlatform db p s) = db4"
    by (rule run_steps)
  let ?nv = "''not_vaulted_'' @ p" and ?or = "''orphaned_'' @ p"
  have db1: "db1 = db\<lparr>comparison_tables := (comparison_tables db)
                (?nv \<mapsto> table_rows db ?nv, ?or \<mapsto> table_rows db ?or)\<rparr>"
    using s1 by (simp add: createComparisonTables_eq)
  from s2 obtain V where V: "account_tables db1 ''vault_accounts'' = Some V"
    and tmp: "filtered_vault db1 = None"
    and db2: "db2 = db1\<lparr>filtered_vault := Some (filter (where_ilike (''%'' @ s @ ''%'')) V)\<rparr>"
    by (rule filterVaultAccounts_Inr)
  let ?F = "filter (where_ilike (''%'' @ s @ ''%'')) V"
  from s3 obtain rows P vs where
    r3: "comparison_tables db2 ?nv = Some rows" and P: "lookup_table db2 (p @ ''_accounts'') = Some P"
    and vs: "lookup_table db2 ''filtered_vault'' = Some vs"
    and nn3: "None \<notin> set (select_unmatched P vs)"
    and db3: "db3 = db2\<lparr>comparison_tables :=
              (comparison_tables db2)(?nv \<mapsto> rows @ map the (select_unmatched P vs))\<rparr>"
    unfolding insertNotVaulted_def by (rule insert_unmatched_Inr)
  have vsF: "vs = ?F" using vs db2 by simp
  have rows: "rows = table_rows db ?nv" using r3 db2 db1 by simp
  from s4 obtain rows' E vs' where
    r4: "comparison_tables db3 ?or = Some rows'" and E: "lookup_table db3 (p @ ''_endpoints'') = Some E"
    and vs': "lookup_table db3 ''filtered_vault'' = Some vs'"
    and nn4: "None \<notin> set (select_unmatched E vs')"
    and db4: "db4 = db3\<lparr>comparison_tables :=
              (comparison_tables db3)(?or \<mapsto> rows' @ map the (select_unmatched E vs'))\<rparr>"
    unfolding insertOrphaned_def by (rule insert_unmatched_Inr)
  have vsF': "vs' = ?F" using vs' db3 db2 by simp
  have rows': "rows' = table_rows db ?or" using r4 db3 db2 db1 by simp
  show thesis
  proof (rule that [of V P E])
    show "account_tables db ''vault_accounts'' = Some V" using V db1 by simp
    show "account_tables db (p @ ''_accounts'') = Some P" using P db2 db1 by simp
    show "account_tables db (p @ ''_endpoints'') = Some E" using E db3 db2 db1 by simp
    show "filtered_vault db = None" using tmp db1 by simp
    show "None \<notin> set (select_unmatched P ?F)" using nn3 vsF by simp
    show "None \<notin> set (select_unmatched E ?F)" using nn4 vsF' by simp
    show "snd (runComparisonForPlatform db p s) =
       db\<lparr>comparison_tables := (comparison_tables db)
            (?nv \<mapsto> table_rows db ?nv @ map the (select_unmatched P ?F),
             ?or \<mapsto> table_rows db ?or @ map the (select_unmatched E ?F)),
          filtered_vault := Some ?F\<rparr>"
      unfolding res db4 db3 db2 db1 vsF vsF' rows rows'
      by (simp add: fun_upd_twist)
  qed
qed

text \<open>The names a successful insert adds, as a set.\<close>

lemma unmatched_names_set:
  assumes "None \<notin> set (select_unmatched ps (filter (where_ilike pat) V))"
  shows "set (map the (select_unmatched ps (filter (where_ilike pat) V))) =
         {n. \<exists>p\<in>set ps. col_account_name p = Some n \<and>
               (\<forall>v\<in>set V. where_ilike pat v \<longrightarrow> col_account_name v \<noteq> Some n)}"
    (is "?L = ?R")
proof
  show "?L \<subseteq> ?R"
  proof
    fix n assume "n \<in> ?L"
    then obtain p where p: "p \<in> set ps" "\<forall>v\<in>set (filter (where_ilike pat) V). \<not> join_on p v"
      and n: "n = the (col_account_name p)"
      by (auto simp: select_unmatched_eq)
    from p assms have "col_account_name p \<noteq> None"
      by (force simp: select_unmatched_eq)
    with n have "col_account_name p = Some n" by auto
    with p show "n \<in> ?R" by (auto simp: join_on_def)
  qed
  show "?R \<subseteq> ?L"
    by (force simp: select_unmatched_eq join_on_def split: option.splits)
qed

lemmas run_defs =
  runComparisonForPlatform_def createComparisonTables_def create_table_if_not_exists_def
  filterVaultAccounts_def lookup_table_def insertNotVaulted_def insertOrphaned_def
  insert_unmatched_def select_unmatched_def left_join_def join_on_def where_ilike_def
  ilike_def lower_ascii_def table_rows_def account_def

subsection \<open>What the two inserts compute\<close>

text \<open>
  Claim C1, as the program has it. The specification's \<open>notVaulted = keys(platform) - keys(vault)\<close>,
  matched on \<^verbatim>\<open>account_id\<close> with no filtering of either side, is not what \<^verbatim>\<open>insertNotVaulted\<close>
  computes. After a run that returns no error, the table \<^verbatim>\<open>not_vaulted_<platform>\<close> holds the
  rows it held before and, in addition, exactly the \<^verbatim>\<open>account_name\<close> values of
  \<^verbatim>\<open><platform>_accounts\<close> that are not the \<^verbatim>\<open>account_name\<close> of any row of \<^verbatim>\<open>vault_accounts\<close>
  whose name matches \<^verbatim>\<open>ILIKE '%' + searchTerm + '%'\<close>. Names are compared by exact equality;
  the vault side is filtered by the search term before the comparison.
\<close>

theorem not_vaulted_rows_after_run:
  assumes "fst (runComparisonForPlatform db plat searchTerm) = None"
    and "account_tables db ''vault_accounts'' = Some vault"
    and "account_tables db (plat @ ''_accounts'') = Some accounts"
  shows "set (table_rows (snd (runComparisonForPlatform db plat searchTerm))
                (''not_vaulted_'' @ plat)) =
         set (table_rows db (''not_vaulted_'' @ plat)) \<union>
         {n. \<exists>p\<in>set accounts. col_account_name p = Some n \<and>
               (\<forall>v\<in>set vault. where_ilike (''%'' @ searchTerm @ ''%'') v
                   \<longrightarrow> col_account_name v \<noteq> Some n)}"
proof -
  from assms(1) obtain V P E where
    V: "account_tables db ''vault_accounts'' = Some V" and
    P: "account_tables db (plat @ ''_accounts'') = Some P" and
    nn: "None \<notin> set (select_unmatched P (filter (where_ilike (''%'' @ searchTerm @ ''%'')) V))" and
    res: "snd (runComparisonForPlatform db plat searchTerm) =
       db\<lparr>comparison_tables := (comparison_tables db)
            (''not_vaulted_'' @ plat \<mapsto> table_rows db (''not_vaulted_'' @ plat) @
                map the (select_unmatched P (filter (where_ilike (''%'' @ searchTerm @ ''%'')) V)),
             ''orphaned_'' @ plat \<mapsto> table_rows db (''orphaned_'' @ plat) @
                map the (select_unmatched E (filter (where_ilike (''%'' @ searchTerm @ ''%'')) V))),
          filtered_vault := Some (filter (where_ilike (''%'' @ searchTerm @ ''%'')) V)\<rparr>"
    by (rule run_success)
  from V P assms(2,3) have eq: "V = vault" "P = accounts" by simp_all
  have "table_rows (snd (runComparisonForPlatform db plat searchTerm))
           (''not_vaulted_'' @ plat) =
        table_rows db (''not_vaulted_'' @ plat) @
          map the (select_unmatched P (filter (where_ilike (''%'' @ searchTerm @ ''%'')) V))"
    unfolding res by (simp add: table_rows_def)
  then show ?thesis
    using unmatched_names_set [OF nn] eq by simp
qed

text \<open>
  The theorem at \<open>db_mixed\<close>, platform \<^verbatim>\<open>ad\<close>, search term \<^verbatim>\<open>admin\<close>: the run succeeds, and
  the not-vaulted table is described by the set above.
\<close>

theorem not_vaulted_rows_after_run_witness:
  "fst (runComparisonForPlatform db_mixed ''ad'' ''admin'') = None
   \<and> set (table_rows (snd (runComparisonForPlatform db_mixed ''ad'' ''admin''))
            (''not_vaulted_'' @ ''ad'')) =
       set (table_rows db_mixed (''not_vaulted_'' @ ''ad'')) \<union>
       {n. \<exists>p\<in>set [account ''Admin_A'', account ''svc_backup'', account ''root''].
             col_account_name p = Some n \<and>
             (\<forall>v\<in>set [account ''Admin_A'', account ''svc_backup''].
                 where_ilike (''%'' @ ''admin'' @ ''%'') v \<longrightarrow> col_account_name v \<noteq> Some n)}"
proof -
  have h1: "fst (runComparisonForPlatform db_mixed ''ad'' ''admin'') = None"
    by (simp add: run_defs db_mixed_def)
  have h2: "account_tables db_mixed ''vault_accounts'' =
              Some [account ''Admin_A'', account ''svc_backup'']"
    by (simp add: db_mixed_def)
  have h3: "account_tables db_mixed (''ad'' @ ''_accounts'') =
              Some [account ''Admin_A'', account ''svc_backup'', account ''root'']"
    by (simp add: db_mixed_def)
  show ?thesis using h1 not_vaulted_rows_after_run [OF h1 h2 h3] by (rule conjI)
qed

text \<open>
  The claim as the specification states it fails: an account that the vault holds and the
  platform has, under the same identifier and name, is reported as not vaulted when its
  name does not contain the search term. The difference of the keys is empty.
\<close>

theorem not_vaulted_counterexample:
  "fst (runComparisonForPlatform db_vaulted_service_account ''ad'' ''admin'') = None
   \<and> table_rows (snd (runComparisonForPlatform db_vaulted_service_account ''ad'' ''admin''))
        ''not_vaulted_ad'' = [''svc_backup'']
   \<and> keys_difference (the (account_tables db_vaulted_service_account ''ad_accounts''))
        (the (account_tables db_vaulted_service_account ''vault_accounts'')) = []"
  by (simp add: run_defs db_vaulted_service_account_def keys_difference_def account_keys_def)

text \<open>
  Claim C2, as the program has it. The specification's \<open>orphaned = keys(vault) - keys(platform)\<close>
  is not what \<^verbatim>\<open>insertOrphaned\<close> computes: its query has the same direction as the
  not-vaulted one, on another table. After a run that returns no error, the table
  \<^verbatim>\<open>orphaned_<platform>\<close> holds the rows it held before and, in addition, exactly the
  \<^verbatim>\<open>account_name\<close> values of \<^verbatim>\<open><platform>_endpoints\<close> that are not the \<^verbatim>\<open>account_name\<close> of any
  row of \<^verbatim>\<open>vault_accounts\<close> whose name matches the search term: accounts found on the
  endpoint and not in the (filtered) vault.
\<close>

theorem orphaned_rows_after_run:
  assumes "fst (runComparisonForPlatform db plat searchTerm) = None"
    and "account_tables db ''vault_accounts'' = Some vault"
    and "account_tables db (plat @ ''_endpoints'') = Some endpoints"
  shows "set (table_rows (snd (runComparisonForPlatform db plat searchTerm))
                (''orphaned_'' @ plat)) =
         set (table_rows db (''orphaned_'' @ plat)) \<union>
         {n. \<exists>e\<in>set endpoints. col_account_name e = Some n \<and>
               (\<forall>v\<in>set vault. where_ilike (''%'' @ searchTerm @ ''%'') v
                   \<longrightarrow> col_account_name v \<noteq> Some n)}"
proof -
  from assms(1) obtain V P E where
    V: "account_tables db ''vault_accounts'' = Some V" and
    E: "account_tables db (plat @ ''_endpoints'') = Some E" and
    nn: "None \<notin> set (select_unmatched E (filter (where_ilike (''%'' @ searchTerm @ ''%'')) V))" and
    res: "snd (runComparisonForPlatform db plat searchTerm) =
       db\<lparr>comparison_tables := (comparison_tables db)
            (''not_vaulted_'' @ plat \<mapsto> table_rows db (''not_vaulted_'' @ plat) @
                map the (select_unmatched P (filter (where_ilike (''%'' @ searchTerm @ ''%'')) V)),
             ''orphaned_'' @ plat \<mapsto> table_rows db (''orphaned_'' @ plat) @
                map the (select_unmatched E (filter (where_ilike (''%'' @ searchTerm @ ''%'')) V))),
          filtered_vault := Some (filter (where_ilike (''%'' @ searchTerm @ ''%'')) V)\<rparr>"
    by (rule run_success)
  from V E assms(2,3) have eq: "V = vault" "E = endpoints" by simp_all
  have "table_rows (snd (runComparisonForPlatform db plat searchTerm))
           (''orphaned_'' @ plat) =
        table_rows db (''orphaned_'' @ plat) @
          map the (select_unmatched E (filter (where_ilike (''%'' @ searchTerm @ ''%'')) V))"
    unfolding res by (simp add: table_rows_def)
  then show ?thesis
    using unmatched_names_set [OF nn] eq by simp
qed

theorem orphaned_rows_after_run_witness:
  "fst (runComparisonForPlatform db_mixed ''ad'' ''admin'') = None
   \<and> set (table_rows (snd (runComparisonForPlatform db_mixed ''ad'' ''admin''))
            (''orphaned_'' @ ''ad'')) =
       set (table_rows db_mixed (''orphaned_'' @ ''ad'')) \<union>
       {n. \<exists>e\<in>set [account ''Admin_A'', account ''ep_only''].
             col_account_name e = Some n \<and>
             (\<forall>v\<in>set [account ''Admin_A'', account ''svc_backup''].
                 where_ilike (''%'' @ ''admin'' @ ''%'') v \<longrightarrow> col_account_name v \<noteq> Some n)}"
proof -
  have h1: "fst (runComparisonForPlatform db_mixed ''ad'' ''admin'') = None"
    by (simp add: run_defs db_mixed_def)
  have h2: "account_tables db_mixed ''vault_accounts'' =
              Some [account ''Admin_A'', account ''svc_backup'']"
    by (simp add: db_mixed_def)
  have h3: "account_tables db_mixed (''ad'' @ ''_endpoints'') =
              Some [account ''Admin_A'', account ''ep_only'']"
    by (simp add: db_mixed_def)
  show ?thesis using h1 orphaned_rows_after_run [OF h1 h2 h3] by (rule conjI)
qed

text \<open>
  The claim as the specification states it fails: the vault account \<^verbatim>\<open>admin_b\<close>, which the
  platform does not have, is the difference \<open>keys(vault) - keys(platform)\<close> (whichever of
  the two platform tables is read as the platform set), and the run writes \<^verbatim>\<open>root_ep\<close>
  instead, the endpoint account that the vault does not hold.
\<close>

theorem orphaned_counterexample:
  "fst (runComparisonForPlatform db_vault_only_account ''ad'' ''admin'') = None
   \<and> table_rows (snd (runComparisonForPlatform db_vault_only_account ''ad'' ''admin''))
        ''orphaned_ad'' = [''root_ep'']
   \<and> keys_difference (the (account_tables db_vault_only_account ''vault_accounts''))
        (the (account_tables db_vault_only_account ''ad_accounts'')) = [''admin_b'']
   \<and> keys_difference (the (account_tables db_vault_only_account ''vault_accounts''))
        (the (account_tables db_vault_only_account ''ad_endpoints'')) = [''admin_b'']"
  by (simp add: run_defs db_vault_only_account_def keys_difference_def account_keys_def)

subsection \<open>Failures, repeated runs and effects\<close>

text \<open>The four ways a run can end. \<^verbatim>\<open>createComparisonTables\<close> itself cannot fail in the model.\<close>

lemma run_cases [case_names filter_fails not_vaulted_fails orphaned_fails ok]:
  obtains
    db1 e where "createComparisonTables db p = Inr db1" "filterVaultAccounts db1 s = Inl e"
      "runComparisonForPlatform db p s = (Some e, db1)"
  | db1 db2 e where "createComparisonTables db p = Inr db1" "filterVaultAccounts db1 s = Inr db2"
      "insertNotVaulted db2 p = Inl e" "runComparisonForPlatform db p s = (Some e, db2)"
  | db1 db2 db3 e where "createComparisonTables db p = Inr db1" "filterVaultAccounts db1 s = Inr db2"
      "insertNotVaulted db2 p = Inr db3" "insertOrphaned db3 p = Inl e"
      "runComparisonForPlatform db p s = (Some e, db3)"
  | db1 db2 db3 db4 where "createComparisonTables db p = Inr db1" "filterVaultAccounts db1 s = Inr db2"
      "insertNotVaulted db2 p = Inr db3" "insertOrphaned db3 p = Inr db4"
      "runComparisonForPlatform db p s = (None, db4)"
proof (cases "filterVaultAccounts (projr (createComparisonTables db p)) s")
  case (Inl e)
  then show ?thesis
    using that(1) by (simp add: runComparisonForPlatform_def createComparisonTables_eq)
next
  case f: (Inr db2)
  show ?thesis
  proof (cases "insertNotVaulted db2 p")
    case (Inl e)
    then show ?thesis
      using that(2) f by (simp add: runComparisonForPlatform_def createComparisonTables_eq)
  next
    case n: (Inr db3)
    show ?thesis
    proof (cases "insertOrphaned db3 p")
      case (Inl e)
      then show ?thesis
        using that(3) f n by (simp add: runComparisonForPlatform_def createComparisonTables_eq)
    next
      case (Inr db4)
      then show ?thesis
        using that(4) f n by (simp add: runComparisonForPlatform_def createComparisonTables_eq)
    qed
  qed
qed



lemma filter_frame:
  assumes "filterVaultAccounts db s = Inr db2"
  shows "account_tables db2 = account_tables db" "comparison_tables db2 = comparison_tables db"
    "table_rows db2 t = table_rows db t"
  using assms by (auto elim!: filterVaultAccounts_Inr simp: table_rows_def)











text \<open>In the same session the second run fails whatever the tables hold.\<close>

lemma second_run_same_session_fails:
  assumes "fst (runComparisonForPlatform db p s) = None"
  shows "fst (runComparisonForPlatform (snd (runComparisonForPlatform db p s)) p s)
           = Some (DuplicateTable ''filtered_vault'')"
proof -
  from assms obtain V P E where
    V: "account_tables db ''vault_accounts'' = Some V" and
    res: "snd (runComparisonForPlatform db p s) =
       db\<lparr>comparison_tables := (comparison_tables db)
            (''not_vaulted_'' @ p \<mapsto> table_rows db (''not_vaulted_'' @ p) @
                map the (select_unmatched P (filter (where_ilike (''%'' @ s @ ''%'')) V)),
             ''orphaned_'' @ p \<mapsto> table_rows db (''orphaned_'' @ p) @
                map the (select_unmatched E (filter (where_ilike (''%'' @ s @ ''%'')) V))),
          filtered_vault := Some (filter (where_ilike (''%'' @ s @ ''%'')) V)\<rparr>"
    by (rule run_success)
  show ?thesis
    unfolding res
    by (simp add: runComparisonForPlatform_def createComparisonTables_eq filterVaultAccounts_def V)
qed




text \<open>
  The comparison tables are the only record of discrepancies this program keeps. Their
  primary key is kept by every run, whatever its outcome: a name is in a table at most once.
\<close>

lemma insert_unmatched_primary_keys:
  assumes "insert_unmatched db target source = Inr db'" "primary_keys_hold db"
  shows "primary_keys_hold db'"
proof -
  from assms(1) obtain rows new where
    r: "comparison_tables db target = Some rows" and
    d: "distinct new" "set new \<inter> set rows = {}" and
    db': "comparison_tables db' = (comparison_tables db)(target \<mapsto> rows @ new)"
    by (auto simp: insert_unmatched_def insert_rows_Inr_iff split: option.splits sum.splits)
  from r assms(2) have "distinct rows" by (simp add: primary_keys_hold_def)
  with d have "distinct (rows @ new)" by auto
  with assms(2) show ?thesis
    unfolding primary_keys_hold_def db' by (simp add: fun_upd_def split: if_splits)
qed

lemma run_keeps_primary_keys:
  assumes "primary_keys_hold db"
  shows "primary_keys_hold (snd (runComparisonForPlatform db p s))"
proof -
  have c: "primary_keys_hold db1" if "createComparisonTables db p = Inr db1" for db1
    using that assms
    by (auto simp: createComparisonTables_eq primary_keys_hold_def table_rows_def
        split: if_splits option.splits)
  have f: "primary_keys_hold db2" if "filterVaultAccounts db1 s = Inr db2" "primary_keys_hold db1"
    for db1 db2
    using that filter_frame(2) [OF that(1)] by (simp add: primary_keys_hold_def)
  show ?thesis
  proof (cases db p s rule: run_cases)
    case (filter_fails db1 e)
    then show ?thesis using c by simp
  next
    case (not_vaulted_fails db1 db2 e)
    then show ?thesis using c f by simp
  next
    case (orphaned_fails db1 db2 db3 e)
    then show ?thesis
      using c f insert_unmatched_primary_keys [OF orphaned_fails(3) [unfolded insertNotVaulted_def]]
      by simp
  next
    case (ok db1 db2 db3 db4)
    then show ?thesis
      using c f insert_unmatched_primary_keys [OF ok(3) [unfolded insertNotVaulted_def]]
        insert_unmatched_primary_keys [OF ok(4) [unfolded insertOrphaned_def]]
      by simp
  qed
qed

section \<open>What the debug transport passes on\<close>

lemma ReadAll_NewBuffer [simp]: "ReadAll (NewBuffer buf) = (buf, None)"
  by (simp add: NewBuffer_def)

text \<open>
  Claim C10, as the program has it. When \<^verbatim>\<open>RoundTrip\<close> returns a response, the underlying
  transport returned one for the forwarded request, and the two have the same status,
  status code and headers; the forwarded request has the caller's method, URL and headers,
  and its body is \<^verbatim>\<open>nil\<close> when the caller's is. Every other body is replaced by a buffer over
  what \<^verbatim>\<open>io.ReadAll\<close> returned for it, the error apart: read to its end, the replacement
  delivers the bytes of the original body (all of them, or those before its first read
  error) and then ends in \<^verbatim>\<open>io.EOF\<close>. So a body that reads to its end without error is
  replaced by an equivalent one, and a read error is not passed on.
\<close>

theorem RoundTrip_same_bytes_then_EOF:
  assumes "returned (RoundTrip DefaultTransport d req) = Inr resp"
  shows "\<exists>resp0. underlying DefaultTransport d (forwarded (RoundTrip DefaultTransport d req)) = Inr resp0
      \<and> Status resp = Status resp0
      \<and> StatusCode resp = StatusCode resp0
      \<and> Response_Header resp = Response_Header resp0
      \<and> ReadAll (Response_Body resp) = (fst (ReadAll (Response_Body resp0)), None)
      \<and> Method (forwarded (RoundTrip DefaultTransport d req)) = Method req
      \<and> URL (forwarded (RoundTrip DefaultTransport d req)) = URL req
      \<and> Request_Header (forwarded (RoundTrip DefaultTransport d req)) = Request_Header req
      \<and> map_option ReadAll (Request_Body (forwarded (RoundTrip DefaultTransport d req)))
          = map_option (\<lambda>b. (fst (ReadAll b), None)) (Request_Body req)"
  using assms
  by (auto simp: RoundTrip_def underlying_def clone_request_body_def Let_def
      split: option.splits sum.splits prod.splits)

theorem RoundTrip_same_bytes_then_EOF_witness:
  "returned (RoundTrip broken_body_transport \<lparr>Transport = None\<rparr> login_request) =
     Inr \<lparr>Status = ''200 OK'', StatusCode = 200,
          Response_Header = [(''Content-Type'', [''text/plain''])],
          Response_Body = Chunk ''token=ab'' EOF\<rparr>
   \<and> (\<exists>resp0.
         underlying broken_body_transport \<lparr>Transport = None\<rparr>
           (forwarded (RoundTrip broken_body_transport \<lparr>Transport = None\<rparr> login_request)) = Inr resp0
       \<and> ReadAll (Chunk ''token=ab'' EOF) = (fst (ReadAll (Response_Body resp0)), None))
   \<and> map_option ReadAll
         (Request_Body (forwarded (RoundTrip broken_body_transport \<lparr>Transport = None\<rparr> login_request)))
       = Some (''username=u&password=p'', None)"
proof -
  have h: "returned (RoundTrip broken_body_transport \<lparr>Transport = None\<rparr> login_request) =
     Inr \<lparr>Status = ''200 OK'', StatusCode = 200,
          Response_Header = [(''Content-Type'', [''text/plain''])],
          Response_Body = Chunk ''token=ab'' EOF\<rparr>"
    by (simp add: RoundTrip_def broken_body_transport_def clone_request_body_def login_request_def
        NewBuffer_def Let_def)
  have r: "map_option (\<lambda>b. (fst (ReadAll b), None :: io_error option)) (Request_Body login_request)
            = Some (''username=u&password=p'', None)"
    by (simp add: login_request_def)
  show ?thesis
    using h r RoundTrip_same_bytes_then_EOF [OF h] by auto
qed

text \<open>
  The claim as it is stated fails: the wrapper is not transparent for a body whose reading
  fails. The response body of the underlying transport delivers \<^verbatim>\<open>token=ab\<close> and then a
  read error; the body that \<^verbatim>\<open>RoundTrip\<close> returns delivers the same bytes and then ends as a
  complete body. The same happens to a request body on its way to the transport.
\<close>

theorem read_error_not_passed_on_counterexample:
  "underlying broken_body_transport \<lparr>Transport = None\<rparr>
       (forwarded (RoundTrip broken_body_transport \<lparr>Transport = None\<rparr> login_request))
     = Inr \<lparr>Status = ''200 OK'', StatusCode = 200,
            Response_Header = [(''Content-Type'', [''text/plain''])],
            Response_Body = Chunk ''token=ab'' (Fail (ReadError ''connection reset by peer''))\<rparr>
   \<and> ReadAll (Chunk ''token=ab'' (Fail (ReadError ''connection reset by peer'')))
       = (''token=ab'', Some (ReadError ''connection reset by peer''))
   \<and> returned (RoundTrip broken_body_transport \<lparr>Transport = None\<rparr> login_request)
     = Inr \<lparr>Status = ''200 OK'', StatusCode = 200,
            Response_Header = [(''Content-Type'', [''text/plain''])],
            Response_Body = Chunk ''token=ab'' EOF\<rparr>
   \<and> ReadAll (Chunk ''token=ab'' EOF) = (''token=ab'', None)
   \<and> map_option ReadAll (Request_Body interrupted_upload)
       = Some (''name,platform'', Some (ReadError ''unexpected EOF''))
   \<and> map_option ReadAll
        (Request_Body (forwarded (RoundTrip broken_body_transport \<lparr>Transport = None\<rparr> interrupted_upload)))
       = Some (''name,platform'', None)"
  by (simp add: RoundTrip_def underlying_def broken_body_transport_def clone_request_body_def
      login_request_def interrupted_upload_def NewBuffer_def Let_def)

section \<open>The reconciliation engine keeps the history\<close>

lemma same_key_iff: "same_key r r' \<longleftrightarrow> key_of r = key_of r'"
  by (auto simp: same_key_def key_of_def)

lemma touch_simps [simp]:
  "key_of (touch i at r) = key_of r" "is_resolved (touch i at r) = is_resolved r"
  "rec_id (touch i at r) = rec_id r"
  by (simp_all add: touch_def key_of_def)

lemma resolve_simps [simp]:
  "key_of (resolve i at r) = key_of r" "rec_id (resolve i at r) = rec_id r"
  by (simp_all add: resolve_def key_of_def)

lemma resolve_still_open: "\<not> is_resolved (resolve i at r) \<Longrightarrow> \<not> is_resolved r"
  by (simp add: resolve_def split: if_splits)

lemma InsertRecord_conflict:
  "list_ex (\<lambda>r. \<not> is_resolved r \<and> same_key r rec) (records st)
     \<Longrightarrow> InsertRecord st rec = Inl ConflictError"
  by (simp add: InsertRecord_def)

lemma InsertRecord_open_unique:
  assumes "open_unique st" "InsertRecord st rec = Inr (i, st')"
  shows "open_unique st'"
proof -
  from assms(2) have
    no: "\<not> list_ex (\<lambda>r. \<not> is_resolved r \<and> same_key r rec) (records st)" and
    st': "records st' = records st @ [rec\<lparr>rec_id := next_id st\<rparr>]"
    by (auto simp: InsertRecord_def split: if_splits)
  have k: "key_of (rec\<lparr>rec_id := next_id st\<rparr>) = key_of rec" by (simp add: key_of_def)
  from no have "key_of rec \<notin> key_of ` {r \<in> set (records st). \<not> is_resolved r}"
    by (auto simp: list_ex_iff same_key_iff)
  with assms(1) show ?thesis
    by (auto simp: open_unique_def st' k)
qed

lemma TouchLastSeen_open_unique:
  "open_unique st \<Longrightarrow> open_unique (TouchLastSeen st i at)"
  by (simp add: open_unique_def TouchLastSeen_def filter_map comp_def)

lemma distinct_map_filter_sub:
  assumes "distinct (map f (filter P xs))" "\<And>x. Q x \<Longrightarrow> P x"
  shows "distinct (map f (filter Q xs))"
  using assms by (induction xs) (auto split: if_splits)

lemma MarkResolved_open_unique:
  assumes "open_unique st" "MarkResolved st i at = Inr st'"
  shows "open_unique st'"
proof -
  from assms(2) have st': "records st' = map (resolve i at) (records st)"
    by (auto simp: MarkResolved_def split: if_splits)
  have "distinct (map key_of (filter (\<lambda>r. \<not> is_resolved (resolve i at r)) (records st)))"
    by (rule distinct_map_filter_sub [OF assms(1) [unfolded open_unique_def]])
       (rule resolve_still_open)
  then show ?thesis
    by (simp add: open_unique_def st' filter_map comp_def)
qed

lemma observe_all_open_unique:
  assumes "observe_all opn p ty at obs (sm, st) = Inr (sm', st')" "open_unique st"
  shows "open_unique st'"
  using assms
proof (induction obs arbitrary: sm st)
  case Nil
  then show ?case by simp
next
  case (Cons a as)
  show ?case
  proof (cases "opn (account_id a)")
    case (Some r)
    with Cons.prems have
      "observe_all opn p ty at as (sm\<lparr>updated := Suc (updated sm)\<rparr>, TouchLastSeen st (rec_id r) at)
         = Inr (sm', st')"
      by simp
    then show ?thesis
      by (rule Cons.IH) (rule TouchLastSeen_open_unique [OF Cons.prems(2)])
  next
    case None
    with Cons.prems(1) obtain i st1 where
      ins: "InsertRecord st (new_record p ty a at) = Inr (i, st1)" and
      rest: "observe_all opn p ty at as (sm\<lparr>created := Suc (created sm)\<rparr>, st1) = Inr (sm', st')"
      by (auto split: sum.splits)
    from rest show ?thesis
      by (rule Cons.IH) (rule InsertRecord_open_unique [OF Cons.prems(2) ins])
  qed
qed

lemma resolve_all_open_unique:
  assumes "resolve_all at ks opens (sm, st) = Inr (sm', st')" "open_unique st"
  shows "open_unique st'"
  using assms
proof (induction opens arbitrary: sm st)
  case Nil
  then show ?case by simp
next
  case (Cons r rs)
  show ?case
  proof (cases "account_id r \<in> set ks")
    case True
    with Cons.prems have "resolve_all at ks rs (sm, st) = Inr (sm', st')" by simp
    then show ?thesis by (rule Cons.IH) (rule Cons.prems(2))
  next
    case False
    with Cons.prems(1) obtain st1 where
      m: "MarkResolved st (rec_id r) at = Inr st1" and
      rest: "resolve_all at ks rs (sm\<lparr>resolved := Suc (resolved sm)\<rparr>, st1) = Inr (sm', st')"
      by (auto split: sum.splits)
    from rest show ?thesis
      by (rule Cons.IH) (rule MarkResolved_open_unique [OF Cons.prems(2) m])
  qed
qed

lemma reconcile_open_unique:
  assumes "reconcile p ty at obs (sm, st) = Inr (sm', st')" "open_unique st"
  shows "open_unique st'"
proof -
  from assms(1) obtain sm1 st1 where
    o: "observe_all (openByKey (GetOpenRecords st p ty)) p ty at obs (sm, st) = Inr (sm1, st1)" and
    r: "resolve_all at (map account_id obs) (GetOpenRecords st p ty) (sm1, st1) = Inr (sm', st')"
    by (auto simp: reconcile_def Let_def split: if_splits sum.splits)
  show ?thesis
    by (rule resolve_all_open_unique [OF r]) (rule observe_all_open_unique [OF o assms(2)])
qed

lemma Run_Inr:
  assumes "Run F st p at = Inr (sm', st')"
  obtains V P sm1 st1 where
    "F p Vault = Inr V" "F p Platform = Inr P"
    "reconcile p NotVaulted at (members P (fst (Compare V P)))
        (\<lparr>created = 0, updated = 0, resolved = 0\<rparr>, st) = Inr (sm1, st1)"
    "reconcile p Orphaned at (members V (snd (Compare V P))) (sm1, st1) = Inr (sm', st')"
proof -
  from assms obtain V where V: "F p Vault = Inr V"
    by (auto simp: Run_def split: sum.splits)
  from assms V obtain P where P: "F p Platform = Inr P"
    by (auto simp: Run_def split: sum.splits)
  from assms V P obtain sm1 st1 where
    "reconcile p NotVaulted at (members P (fst (Compare V P)))
        (\<lparr>created = 0, updated = 0, resolved = 0\<rparr>, st) = Inr (sm1, st1)"
    "reconcile p Orphaned at (members V (snd (Compare V P))) (sm1, st1) = Inr (sm', st')"
    by (auto simp: Run_def split: sum.splits prod.splits)
  with V P show thesis by (rule that)
qed

lemma Run_open_unique:
  assumes "Run F st p at = Inr (sm', st')" "open_unique st"
  shows "open_unique st'"
proof -
  from assms(1) obtain V P sm1 st1 where
    "reconcile p NotVaulted at (members P (fst (Compare V P)))
        (\<lparr>created = 0, updated = 0, resolved = 0\<rparr>, st) = Inr (sm1, st1)"
    "reconcile p Orphaned at (members V (snd (Compare V P))) (sm1, st1) = Inr (sm', st')"
    by (rule Run_Inr)
  then show ?thesis
    using assms(2) by (blast intro: reconcile_open_unique)
qed

lemma touch_in_empty [simp]: "touch_in {} at r = r"
  by (simp add: touch_in_def)

lemma resolve_in_empty [simp]: "resolve_in {} at r = r"
  by (simp add: resolve_in_def)

lemma touch_in_touch: "touch_in T at (touch i at r) = touch_in (insert i T) at r"
proof (cases "is_resolved r")
  case True
  then show ?thesis by (simp add: touch_in_def touch_def)
next
  case False
  show ?thesis
  proof (cases "rec_id r = i")
    case True
    with False show ?thesis by (simp add: touch_in_def touch_def)
  next
    case False
    with \<open>\<not> is_resolved r\<close> show ?thesis by (simp add: touch_in_def touch_def)
  qed
qed

lemma resolve_in_resolve: "resolve_in R at (resolve i at r) = resolve_in (insert i R) at r"
proof (cases "is_resolved r")
  case True
  then show ?thesis by (simp add: resolve_in_def resolve_def)
next
  case False
  show ?thesis
  proof (cases "rec_id r = i")
    case True
    with False show ?thesis by (simp add: resolve_in_def resolve_def)
  next
    case False
    with \<open>\<not> is_resolved r\<close> show ?thesis by (simp add: resolve_in_def resolve_def)
  qed
qed

lemma touch_in_new_record [simp]:
  "touch_in T at ((new_record p ty a at)\<lparr>rec_id := n\<rparr>) = (new_record p ty a at)\<lparr>rec_id := n\<rparr>"
  by (simp add: touch_in_def new_record_def)

lemma touched_ids_Nil [simp]: "touched_ids opn [] = {}"
  by (simp add: touched_ids_def)

lemma touched_ids_Cons:
  "touched_ids opn (a # as) =
     (case opn (account_id a) of None \<Rightarrow> touched_ids opn as
      | Some r \<Rightarrow> insert (rec_id r) (touched_ids opn as))"
  by (auto simp: touched_ids_def split: option.splits)

lemma observe_all_Inr_conj:
  "observe_all opn p ty at obs (sm, st) = Inr (sm', st') \<Longrightarrow>
     records st' = map (touch_in (touched_ids opn obs) at) (records st)
                        @ fresh_records opn p ty at obs (next_id st)
      \<and> next_id st' = next_id st + length (fresh_records opn p ty at obs (next_id st))
      \<and> created sm' = created sm + length (fresh_records opn p ty at obs (next_id st))
      \<and> updated sm' = updated sm + length (filter (\<lambda>a. opn (account_id a) \<noteq> None) obs)
      \<and> resolved sm' = resolved sm"
proof (induction obs arbitrary: sm st)
  case Nil
  then show ?case by simp
next
  case (Cons a as)
  show ?case
  proof (cases "opn (account_id a)")
    case (Some r)
    with Cons.prems have rest:
      "observe_all opn p ty at as (sm\<lparr>updated := Suc (updated sm)\<rparr>, TouchLastSeen st (rec_id r) at)
         = Inr (sm', st')"
      by simp
    have t: "records (TouchLastSeen st (rec_id r) at) = map (touch (rec_id r) at) (records st)"
      "next_id (TouchLastSeen st (rec_id r) at) = next_id st"
      by (simp_all add: TouchLastSeen_def)
    have m: "map (touch_in (touched_ids opn as) at) (map (touch (rec_id r) at) (records st))
           = map (touch_in (touched_ids opn (a # as)) at) (records st)"
      using Some by (simp add: touched_ids_Cons touch_in_touch)
    show ?thesis
      using Cons.IH [OF rest] Some unfolding t m by simp
  next
    case None
    with Cons.prems obtain i st1 where
      ins: "InsertRecord st (new_record p ty a at) = Inr (i, st1)" and
      rest: "observe_all opn p ty at as (sm\<lparr>created := Suc (created sm)\<rparr>, st1) = Inr (sm', st')"
      by (auto split: sum.splits)
    from ins have st1: "records st1 = records st @ [(new_record p ty a at)\<lparr>rec_id := next_id st\<rparr>]"
      "next_id st1 = Suc (next_id st)"
      by (auto simp: InsertRecord_def split: if_splits)
    have m: "touched_ids opn (a # as) = touched_ids opn as"
      using None by (simp add: touched_ids_Cons)
    show ?thesis
      using Cons.IH [OF rest] None unfolding st1 m by simp
  qed
qed

lemma resolved_ids_Nil [simp]: "resolved_ids [] ks = {}"
  by (simp add: resolved_ids_def)

lemma resolved_ids_Cons:
  "resolved_ids (r # rs) ks =
     (if account_id r \<in> set ks then resolved_ids rs ks else insert (rec_id r) (resolved_ids rs ks))"
  by (auto simp: resolved_ids_def)

lemma resolve_all_Inr_conj:
  "resolve_all at ks opens (sm, st) = Inr (sm', st') \<Longrightarrow>
     records st' = map (resolve_in (resolved_ids opens ks) at) (records st)
     \<and> next_id st' = next_id st
     \<and> resolved sm' = resolved sm + length (filter (\<lambda>r. account_id r \<notin> set ks) opens)
     \<and> created sm' = created sm \<and> updated sm' = updated sm"
proof (induction opens arbitrary: sm st)
  case Nil
  then show ?case by simp
next
  case (Cons r rs)
  show ?case
  proof (cases "account_id r \<in> set ks")
    case True
    with Cons.prems have "resolve_all at ks rs (sm, st) = Inr (sm', st')" by simp
    from Cons.IH [OF this] True show ?thesis by (simp add: resolved_ids_Cons)
  next
    case False
    with Cons.prems obtain st1 where
      m: "MarkResolved st (rec_id r) at = Inr st1" and
      rest: "resolve_all at ks rs (sm\<lparr>resolved := Suc (resolved sm)\<rparr>, st1) = Inr (sm', st')"
      by (auto split: sum.splits)
    from m have st1: "records st1 = map (resolve (rec_id r) at) (records st)" "next_id st1 = next_id st"
      by (auto simp: MarkResolved_def split: if_splits)
    have mm: "map (resolve_in (resolved_ids rs ks) at) (map (resolve (rec_id r) at) (records st))
           = map (resolve_in (resolved_ids (r # rs) ks) at) (records st)"
      using False by (simp add: resolved_ids_Cons resolve_in_resolve)
    show ?thesis
      using Cons.IH [OF rest] False unfolding st1 mm by simp
  qed
qed

lemma fresh_records_ids:
  "map rec_id (fresh_records opn p ty at obs n) = [n ..< n + length (fresh_records opn p ty at obs n)]"
proof (induction obs arbitrary: n)
  case Nil
  show ?case by simp
next
  case (Cons a as)
  show ?case
  proof (cases "opn (account_id a)")
    case None
    have "[n ..< Suc (n + length (fresh_records opn p ty at as (Suc n)))]
            = n # [Suc n ..< Suc n + length (fresh_records opn p ty at as (Suc n))]"
      by (simp add: upt_rec)
    with None Cons.IH [of "Suc n"] show ?thesis by (simp add: new_record_def)
  next
    case (Some r)
    with Cons.IH [of n] show ?thesis by simp
  qed
qed

lemma fresh_records_keys:
  "map account_id (fresh_records opn p ty at obs n)
     = filter (\<lambda>k. opn k = None) (map account_id obs)"
  by (induction obs arbitrary: n) (auto simp: new_record_def split: option.splits)

lemma fresh_records_fields:
  assumes "f \<in> set (fresh_records opn p ty at obs n)"
  shows "platform f = p" "discrepancy_type f = ty" "\<not> is_resolved f" "first_detected f = at"
    "last_seen f = at" "resolved_at f = None"
    "\<exists>a\<in>set obs. account_id f = account_id a \<and> account_name f = account_name a"
  using assms
  by (induction obs arbitrary: n; auto simp: new_record_def split: option.splits)+

lemma set_last_seen_simps [simp]:
  "rec_id (set_last_seen at r) = rec_id r" "is_resolved (set_last_seen at r) = is_resolved r"
  "key_of (set_last_seen at r) = key_of r"
  "platform (set_last_seen at r) = platform r"
  "discrepancy_type (set_last_seen at r) = discrepancy_type r"
  "account_id (set_last_seen at r) = account_id r"
  by (simp_all add: set_last_seen_def key_of_def)

lemma set_resolved_simps [simp]:
  "rec_id (set_resolved at r) = rec_id r" "is_resolved (set_resolved at r)"
  "key_of (set_resolved at r) = key_of r"
  "platform (set_resolved at r) = platform r"
  "discrepancy_type (set_resolved at r) = discrepancy_type r"
  "account_id (set_resolved at r) = account_id r"
  by (simp_all add: set_resolved_def key_of_def)

lemma touch_in_eq:
  "touch_in T at r = (if rec_id r \<in> T \<and> \<not> is_resolved r then set_last_seen at r else r)"
  unfolding touch_in_def set_last_seen_def ..

lemma resolve_in_eq:
  "resolve_in R at r = (if rec_id r \<in> R \<and> \<not> is_resolved r then set_resolved at r else r)"
  unfolding resolve_in_def set_resolved_def ..

lemma reconciled_simps [simp]:
  "rec_id (reconciled p ty K at r) = rec_id r"
  "key_of (reconciled p ty K at r) = key_of r"
  by (simp_all add: reconciled_def)

lemma openByKey_Some:
  assumes "openByKey opens k = Some r"
  shows "r \<in> set opens" "account_id r = k"
  using assms by (auto simp: openByKey_def dest!: map_of_SomeD)

lemma openByKey_member:
  assumes "distinct (map account_id opens)" "r \<in> set opens"
  shows "openByKey opens (account_id r) = Some r"
proof -
  have "distinct (map fst (map (\<lambda>r. (account_id r, r)) opens))"
    using assms(1) by (simp add: comp_def)
  moreover have "(account_id r, r) \<in> set (map (\<lambda>r. (account_id r, r)) opens)"
    using assms(2) by auto
  ultimately show ?thesis
    unfolding openByKey_def by (rule map_of_is_SomeI)
qed

lemma openByKey_None: "openByKey opens k = None \<longleftrightarrow> k \<notin> account_id ` set opens"
  by (simp add: openByKey_def map_of_eq_None_iff image_image)

lemma GetOpenRecords_iff:
  "r \<in> set (GetOpenRecords st p ty) \<longleftrightarrow>
     r \<in> set (records st) \<and> platform r = p \<and> discrepancy_type r = ty \<and> \<not> is_resolved r"
  by (auto simp: GetOpenRecords_def)

lemma same_id_same_record:
  assumes "distinct (map rec_id xs)" "x \<in> set xs" "y \<in> set xs" "rec_id x = rec_id y"
  shows "x = y"
  using assms by (meson distinct_map inj_onD)

text \<open>On a record of the store, the touches and resolutions by identifier are the reconciliation by key.\<close>

lemma by_id_is_by_key:
  assumes ids: "distinct (map rec_id (records st))"
    and keys: "distinct (map account_id (GetOpenRecords st p ty))"
    and r: "r \<in> set (records st)"
  shows "resolve_in (resolved_ids (GetOpenRecords st p ty) (map account_id obs)) at
           (touch_in (touched_ids (openByKey (GetOpenRecords st p ty)) obs) at r)
         = reconciled p ty (account_id ` set obs) at r"
proof -
  let ?opens = "GetOpenRecords st p ty"
  let ?T = "touched_ids (openByKey ?opens) obs"
  let ?R = "resolved_ids ?opens (map account_id obs)"
  have T: "rec_id r \<in> ?T \<longleftrightarrow> r \<in> set ?opens \<and> account_id r \<in> account_id ` set obs"
  proof
    assume "rec_id r \<in> ?T"
    then obtain r' a where a: "a \<in> set obs" and o: "openByKey ?opens (account_id a) = Some r'"
      and i: "rec_id r' = rec_id r"
      by (auto simp: touched_ids_def)
    from o have r': "r' \<in> set ?opens" "account_id r' = account_id a" by (rule openByKey_Some)+
    from r' have "r' \<in> set (records st)" by (simp add: GetOpenRecords_iff)
    from ids this r i have "r' = r" by (rule same_id_same_record)
    with r' a show "r \<in> set ?opens \<and> account_id r \<in> account_id ` set obs" by auto
  next
    assume h: "r \<in> set ?opens \<and> account_id r \<in> account_id ` set obs"
    then obtain a where a: "a \<in> set obs" "account_id a = account_id r" by auto
    from h keys have "openByKey ?opens (account_id r) = Some r" by (simp add: openByKey_member)
    with a have "openByKey ?opens (account_id a) = Some r" by simp
    with a(1) show "rec_id r \<in> ?T" unfolding touched_ids_def by blast
  qed
  have R: "rec_id r \<in> ?R \<longleftrightarrow> r \<in> set ?opens \<and> account_id r \<notin> account_id ` set obs"
  proof
    assume "rec_id r \<in> ?R"
    then obtain r' where r': "r' \<in> set ?opens" "account_id r' \<notin> account_id ` set obs"
      and i: "rec_id r' = rec_id r"
      by (auto simp: resolved_ids_def)
    from r' have "r' \<in> set (records st)" by (simp add: GetOpenRecords_iff)
    from ids this r i have "r' = r" by (rule same_id_same_record)
    with r' show "r \<in> set ?opens \<and> account_id r \<notin> account_id ` set obs" by simp
  next
    assume "r \<in> set ?opens \<and> account_id r \<notin> account_id ` set obs"
    then show "rec_id r \<in> ?R" by (auto simp: resolved_ids_def)
  qed
  have O: "r \<in> set ?opens \<longleftrightarrow> platform r = p \<and> discrepancy_type r = ty \<and> \<not> is_resolved r"
    using r by (simp add: GetOpenRecords_iff)
  show ?thesis
  proof (cases "r \<in> set ?opens")
    case False
    with T R have "rec_id r \<notin> ?T" "rec_id r \<notin> ?R" by simp_all
    moreover from False O have "\<not> (platform r = p \<and> discrepancy_type r = ty \<and> \<not> is_resolved r)"
      by simp
    ultimately show ?thesis by (auto simp: touch_in_eq resolve_in_eq reconciled_def)
  next
    case True
    with O have op: "platform r = p" "discrepancy_type r = ty" "\<not> is_resolved r" by simp_all
    show ?thesis
    proof (cases "account_id r \<in> account_id ` set obs")
      case k: True
      with True T R have "rec_id r \<in> ?T" "rec_id r \<notin> ?R" by simp_all
      with op k show ?thesis by (simp add: touch_in_eq resolve_in_eq reconciled_def)
    next
      case k: False
      with True T R have "rec_id r \<notin> ?T" "rec_id r \<in> ?R" by simp_all
      with op k show ?thesis by (simp add: touch_in_eq resolve_in_eq reconciled_def)
    qed
  qed
qed

lemma reconcile_steps:
  assumes "reconcile p ty at obs (sm, st) = Inr (sm', st')"
  obtains sm1 st1 where
    "distinct (map account_id (GetOpenRecords st p ty))"
    "observe_all (openByKey (GetOpenRecords st p ty)) p ty at obs (sm, st) = Inr (sm1, st1)"
    "resolve_all at (map account_id obs) (GetOpenRecords st p ty) (sm1, st1) = Inr (sm', st')"
  using assms by (auto simp: reconcile_def Let_def split: if_splits sum.splits)

lemma reconcile_Inr:
  assumes wf: "wf_store st" and run: "reconcile p ty at obs (sm, st) = Inr (sm', st')"
  defines "fresh \<equiv> fresh_records (openByKey (GetOpenRecords st p ty)) p ty at obs (next_id st)"
  shows "records st' = map (reconciled p ty (account_id ` set obs) at) (records st) @ fresh"
    and "next_id st' = next_id st + length fresh"
    and "wf_store st'"
    and "created sm' = created sm + length fresh"
    and "updated sm' = updated sm
           + length (filter (\<lambda>a. openByKey (GetOpenRecords st p ty) (account_id a) \<noteq> None) obs)"
    and "resolved sm' = resolved sm
           + length (filter (\<lambda>r. account_id r \<notin> account_id ` set obs) (GetOpenRecords st p ty))"
proof -
  let ?opens = "GetOpenRecords st p ty"
  let ?T = "touched_ids (openByKey ?opens) obs"
  let ?R = "resolved_ids ?opens (map account_id obs)"
  from run obtain sm1 st1 where
    keys: "distinct (map account_id ?opens)" and
    o: "observe_all (openByKey ?opens) p ty at obs (sm, st) = Inr (sm1, st1)" and
    r: "resolve_all at (map account_id obs) ?opens (sm1, st1) = Inr (sm', st')"
    by (rule reconcile_steps)
  note oc = observe_all_Inr_conj [OF o, folded fresh_def]
  note rc = resolve_all_Inr_conj [OF r]
  from wf have ids: "distinct (map rec_id (records st))"
    and lt: "\<forall>x\<in>set (records st). rec_id x < next_id st"
    by (simp_all add: wf_store_def list_all_iff)
  have fid: "map rec_id fresh = [next_id st ..< next_id st + length fresh]"
    unfolding fresh_def by (rule fresh_records_ids)
  have fresh_ge: "next_id st \<le> rec_id f" if "f \<in> set fresh" for f
  proof -
    from that have "rec_id f \<in> set (map rec_id fresh)" by simp
    then show ?thesis unfolding fid by simp
  qed
  have R_lt: "i < next_id st" if "i \<in> ?R" for i
    using that lt by (auto simp: resolved_ids_def GetOpenRecords_iff)
  have keep: "resolve_in ?R at f = f" if "f \<in> set fresh" for f
  proof -
    have "rec_id f \<notin> ?R" using fresh_ge [OF that] R_lt [of "rec_id f"] by auto
    then show ?thesis by (simp add: resolve_in_eq)
  qed
  have old: "map (resolve_in ?R at) (map (touch_in ?T at) (records st))
           = map (reconciled p ty (account_id ` set obs) at) (records st)"
    using by_id_is_by_key [OF ids keys] by simp
  have new: "map (resolve_in ?R at) fresh = fresh"
    using keep by (simp add: map_idI)
  show recs: "records st' = map (reconciled p ty (account_id ` set obs) at) (records st) @ fresh"
    using oc rc old new by simp
  show nid: "next_id st' = next_id st + length fresh"
    using oc rc by simp
  show "created sm' = created sm + length fresh"
    using oc rc by simp
  show "updated sm' = updated sm
           + length (filter (\<lambda>a. openByKey ?opens (account_id a) \<noteq> None) obs)"
    using oc rc by simp
  show "resolved sm' = resolved sm
           + length (filter (\<lambda>r. account_id r \<notin> account_id ` set obs) ?opens)"
    using oc rc by simp
  have "map rec_id (records st') = map rec_id (records st) @ [next_id st ..< next_id st + length fresh]"
    unfolding recs using fid by (simp add: comp_def)
  moreover have "set (map rec_id (records st)) \<inter> set [next_id st ..< next_id st + length fresh] = {}"
    using lt by fastforce
  ultimately have d: "distinct (map rec_id (records st'))"
    using ids by simp
  have "\<forall>x\<in>set (records st'). rec_id x < next_id st'"
  proof
    fix x assume "x \<in> set (records st')"
    then have "rec_id x \<in> set (map rec_id (records st'))" by simp
    then have "rec_id x \<in> set (map rec_id (records st)) \<or>
               rec_id x \<in> set [next_id st ..< next_id st + length fresh]"
      unfolding \<open>map rec_id (records st') = _\<close> by simp
    then show "rec_id x < next_id st'"
      using lt nid by auto
  qed
  with d show "wf_store st'" by (simp add: wf_store_def list_all_iff)
qed

lemma members_keys:
  "set ks \<subseteq> set (account_ids s) \<Longrightarrow> account_id ` set (members s ks) = set ks"
  by (auto simp: members_def account_ids_def)

lemma observed_accounts_keys:
  "account_id ` set (observed_accounts V P ty) = set (observed_keys V P ty)"
proof (cases ty)
  case NotVaulted
  have "set (fst (Compare V P)) \<subseteq> set (account_ids P)" by (auto simp: Compare_def)
  then show ?thesis
    using NotVaulted by (simp add: observed_accounts_def observed_keys_def members_keys)
next
  case Orphaned
  have "set (snd (Compare V P)) \<subseteq> set (account_ids V)" by (auto simp: Compare_def)
  then show ?thesis
    using Orphaned by (simp add: observed_accounts_def observed_keys_def members_keys)
qed

lemma observed_accounts_distinct:
  assumes "distinct (account_ids V)" "distinct (account_ids P)"
  shows "distinct (map account_id (observed_accounts V P ty))"
  using assms
  by (cases ty) (simp_all add: observed_accounts_def members_def account_ids_def distinct_map_filter)

lemma Run_reconciles:
  assumes "Run F st p at = Inr (sm', st')" "F p Vault = Inr V" "F p Platform = Inr P"
  obtains sm1 st1 where
    "reconcile p NotVaulted at (observed_accounts V P NotVaulted)
        (\<lparr>created = 0, updated = 0, resolved = 0\<rparr>, st) = Inr (sm1, st1)"
    "reconcile p Orphaned at (observed_accounts V P Orphaned) (sm1, st1) = Inr (sm', st')"
proof -
  from assms(1) obtain V' P' sm1 st1 where
    "F p Vault = Inr V'" "F p Platform = Inr P'"
    "reconcile p NotVaulted at (members P' (fst (Compare V' P')))
        (\<lparr>created = 0, updated = 0, resolved = 0\<rparr>, st) = Inr (sm1, st1)"
    "reconcile p Orphaned at (members V' (snd (Compare V' P'))) (sm1, st1) = Inr (sm', st')"
    by (rule Run_Inr)
  with assms(2,3) show thesis
    by (intro that [of sm1 st1]) (simp_all add: observed_accounts_def)
qed

lemma reconciled_other_type:
  "discrepancy_type r \<noteq> ty \<Longrightarrow> reconciled p ty K at r = r"
  "platform r \<noteq> p \<Longrightarrow> reconciled p ty K at r = r"
  "is_resolved r \<Longrightarrow> reconciled p ty K at r = r"
  by (simp_all add: reconciled_def)

lemma reconciled_type [simp]:
  "discrepancy_type (reconciled p ty K at r) = discrepancy_type r"
  "platform (reconciled p ty K at r) = platform r"
  "account_id (reconciled p ty K at r) = account_id r"
  by (simp_all add: reconciled_def)

text \<open>What a run does to the record at each position of the store.\<close>

lemma reconciled_twice:
  "reconciled p Orphaned (set (observed_keys V P Orphaned)) at
     (reconciled p NotVaulted (set (observed_keys V P NotVaulted)) at r) = run_update p V P at r"
proof (cases "discrepancy_type r")
  case NotVaulted
  then show ?thesis by (simp add: reconciled_other_type(1)) (simp add: reconciled_def run_update_def)
next
  case Orphaned
  then show ?thesis by (simp add: reconciled_other_type(1)) (simp add: reconciled_def run_update_def)
qed

lemma Run_records:
  assumes wf: "wf_store st" and run: "Run F st p at = Inr (sm', st')"
    and V: "F p Vault = Inr V" and P: "F p Platform = Inr P"
  obtains freshN freshO where
    "records st' = map (run_update p V P at) (records st) @ freshN @ freshO"
    "wf_store st'"
    "\<forall>f\<in>set freshN. platform f = p \<and> discrepancy_type f = NotVaulted \<and> \<not> is_resolved f"
    "\<forall>f\<in>set freshO. platform f = p \<and> discrepancy_type f = Orphaned \<and> \<not> is_resolved f"
proof -
  from run V P obtain sm1 st1 where
    r1: "reconcile p NotVaulted at (observed_accounts V P NotVaulted)
        (\<lparr>created = 0, updated = 0, resolved = 0\<rparr>, st) = Inr (sm1, st1)" and
    r2: "reconcile p Orphaned at (observed_accounts V P Orphaned) (sm1, st1) = Inr (sm', st')"
    by (rule Run_reconciles)
  let ?fN = "fresh_records (openByKey (GetOpenRecords st p NotVaulted)) p NotVaulted at
               (observed_accounts V P NotVaulted) (next_id st)"
  let ?fO = "fresh_records (openByKey (GetOpenRecords st1 p Orphaned)) p Orphaned at
               (observed_accounts V P Orphaned) (next_id st1)"
  have s1: "records st1 = map (reconciled p NotVaulted (set (observed_keys V P NotVaulted)) at)
                              (records st) @ ?fN"
    using reconcile_Inr(1) [OF wf r1] by (simp add: observed_accounts_keys)
  have wf1: "wf_store st1" by (rule reconcile_Inr(3) [OF wf r1])
  have s2: "records st' = map (reconciled p Orphaned (set (observed_keys V P Orphaned)) at)
                              (records st1) @ ?fO"
    using reconcile_Inr(1) [OF wf1 r2] by (simp add: observed_accounts_keys)
  have fN: "\<forall>f\<in>set ?fN. platform f = p \<and> discrepancy_type f = NotVaulted \<and> \<not> is_resolved f"
    by (auto dest: fresh_records_fields)
  have fO: "\<forall>f\<in>set ?fO. platform f = p \<and> discrepancy_type f = Orphaned \<and> \<not> is_resolved f"
    by (auto dest: fresh_records_fields)
  have keepN: "map (reconciled p Orphaned (set (observed_keys V P Orphaned)) at) ?fN = ?fN"
    using fN by (intro map_idI) (simp add: reconciled_other_type(1))
  have "records st' = map (run_update p V P at) (records st) @ ?fN @ ?fO"
    unfolding s2 s1 by (simp add: keepN reconciled_twice)
  then show thesis
    using reconcile_Inr(3) [OF wf1 r2] fN fO by (rule that)
qed

lemma fresh_records_none:
  assumes "\<not> (k \<in> account_id ` set obs \<and> opn k = None)"
  shows "filter (\<lambda>r. account_id r = k) (fresh_records opn p ty at obs n) = []"
proof -
  have "k \<notin> set (map account_id (fresh_records opn p ty at obs n))"
    unfolding fresh_records_keys using assms by auto
  then show ?thesis by (auto simp: filter_empty_conv)
qed

lemma fresh_records_one:
  assumes "distinct (map account_id obs)" "k \<in> account_id ` set obs" "opn k = None"
  shows "\<exists>a m. a \<in> set obs \<and> account_id a = k \<and>
           filter (\<lambda>r. account_id r = k) (fresh_records opn p ty at obs n)
             = [(new_record p ty a at)\<lparr>rec_id := m\<rparr>]"
  using assms
proof (induction obs arbitrary: n)
  case Nil
  then show ?case by simp
next
  case (Cons a as)
  show ?case
  proof (cases "account_id a = k")
    case True
    with Cons.prems(1) have "k \<notin> account_id ` set as" by auto
    then have rest: "filter (\<lambda>r. account_id r = k) (fresh_records opn p ty at as (Suc n)) = []"
      by (intro fresh_records_none) simp
    have hd: "account_id ((new_record p ty a at)\<lparr>rec_id := n\<rparr>) = k"
      using True by (simp add: new_record_def)
    have "filter (\<lambda>r. account_id r = k) (fresh_records opn p ty at (a # as) n)
            = [(new_record p ty a at)\<lparr>rec_id := n\<rparr>]"
      using True Cons.prems(3) rest hd by simp
    with True show ?thesis by (intro exI [of _ a] exI [of _ n]) simp
  next
    case False
    with Cons.prems have "distinct (map account_id as)" "k \<in> account_id ` set as" by auto
    from Cons.IH [OF this Cons.prems(3)] obtain b m where
      b: "b \<in> set as" "account_id b = k"
      and f: "\<And>n. \<exists>b m. b \<in> set as \<and> account_id b = k \<and>
              filter (\<lambda>r. account_id r = k) (fresh_records opn p ty at as n)
                = [(new_record p ty b at)\<lparr>rec_id := m\<rparr>]"
      using Cons.IH [OF \<open>distinct (map account_id as)\<close> \<open>k \<in> account_id ` set as\<close> Cons.prems(3)]
      by blast
    have nk: "account_id ((new_record p ty a at)\<lparr>rec_id := n\<rparr>) \<noteq> k"
      using False by (simp add: new_record_def)
    show ?thesis
    proof (cases "opn (account_id a)")
      case None
      from f [of "Suc n"] obtain b m where
        "b \<in> set as" "account_id b = k"
        "filter (\<lambda>r. account_id r = k) (fresh_records opn p ty at as (Suc n))
           = [(new_record p ty b at)\<lparr>rec_id := m\<rparr>]"
        by blast
      with None nk show ?thesis
        by (intro exI [of _ b] exI [of _ m]) simp
    next
      case (Some r)
      from f [of n] obtain b m where
        "b \<in> set as" "account_id b = k"
        "filter (\<lambda>r. account_id r = k) (fresh_records opn p ty at as n)
           = [(new_record p ty b at)\<lparr>rec_id := m\<rparr>]"
        by blast
      with Some show ?thesis
        by (intro exI [of _ b] exI [of _ m]) simp
    qed
  qed
qed

lemma fresh_records_key_of:
  "filter (\<lambda>r. key_of r = (p', ty', k)) (fresh_records opn p ty at obs n) =
     (if p' = p \<and> ty' = ty then filter (\<lambda>r. account_id r = k) (fresh_records opn p ty at obs n)
      else [])"
proof -
  have "key_of f = (p', ty', k) \<longleftrightarrow> p' = p \<and> ty' = ty \<and> account_id f = k"
    if "f \<in> set (fresh_records opn p ty at obs n)" for f
    using fresh_records_fields(1,2) [OF that] by (auto simp: key_of_def)
  then show ?thesis
    by (auto intro!: filter_cong simp: filter_empty_conv)
qed

lemma no_open_key:
  "openByKey (GetOpenRecords st p ty) k = None \<longleftrightarrow>
     (\<forall>r\<in>set (key_rows st (p, ty, k)). is_resolved r)"
  by (auto simp: openByKey_None GetOpenRecords_iff key_rows_def key_of_def)

lemma filter_key_map:
  assumes "\<And>x. key_of (f x) = key_of x"
  shows "filter (\<lambda>r. key_of r = K) (map f xs) = map f (filter (\<lambda>r. key_of r = K) xs)"
  using assms by (induction xs) auto

lemma reconcile_key_rows_other:
  assumes wf: "wf_store st" and run: "reconcile p ty at obs (sm, st) = Inr (sm', st')"
    and other: "p' \<noteq> p \<or> ty' \<noteq> ty"
  shows "key_rows st' (p', ty', k) = key_rows st (p', ty', k)"
proof -
  have same: "reconciled p ty (account_id ` set obs) at r = r"
    if "r \<in> set (filter (\<lambda>r. key_of r = (p', ty', k)) (records st))" for r
    using that other by (auto simp: key_of_def reconciled_other_type)
  have "filter (\<lambda>r. key_of r = (p', ty', k))
          (map (reconciled p ty (account_id ` set obs) at) (records st))
        = map (reconciled p ty (account_id ` set obs) at)
            (filter (\<lambda>r. key_of r = (p', ty', k)) (records st))"
    by (rule filter_key_map) simp
  also have "\<dots> = filter (\<lambda>r. key_of r = (p', ty', k)) (records st)"
    using same by (rule map_idI)
  finally show ?thesis
    using other unfolding key_rows_def reconcile_Inr(1) [OF wf run]
    by (auto simp: fresh_records_key_of)
qed

text \<open>What a reconciliation of type \<open>ty\<close> does to the rows of a key of that type.\<close>

lemma reconcile_key_rows_same:
  assumes wf: "wf_store st" and run: "reconcile p ty at obs (sm, st) = Inr (sm', st')"
    and d: "distinct (map account_id obs)"
  shows "\<exists>news. key_rows st' (p, ty, k)
              = map (reconciled p ty (account_id ` set obs) at) (key_rows st (p, ty, k)) @ news
         \<and> (k \<in> account_id ` set obs \<and> (\<forall>r\<in>set (key_rows st (p, ty, k)). is_resolved r)
              \<longrightarrow> (\<exists>a m. a \<in> set obs \<and> account_id a = k
                      \<and> news = [(new_record p ty a at)\<lparr>rec_id := m\<rparr>]))
         \<and> (\<not> (k \<in> account_id ` set obs \<and> (\<forall>r\<in>set (key_rows st (p, ty, k)). is_resolved r))
              \<longrightarrow> news = [])"
proof -
  let ?opn = "openByKey (GetOpenRecords st p ty)"
  let ?fresh = "fresh_records ?opn p ty at obs (next_id st)"
  let ?news = "filter (\<lambda>r. account_id r = k) ?fresh"
  have old: "filter (\<lambda>r. key_of r = (p, ty, k))
          (map (reconciled p ty (account_id ` set obs) at) (records st))
        = map (reconciled p ty (account_id ` set obs) at) (key_rows st (p, ty, k))"
    unfolding key_rows_def by (rule filter_key_map) simp
  have rows: "key_rows st' (p, ty, k)
              = map (reconciled p ty (account_id ` set obs) at) (key_rows st (p, ty, k)) @ ?news"
    unfolding key_rows_def [of st'] reconcile_Inr(1) [OF wf run]
    using old by (simp add: fresh_records_key_of)
  have one: "\<exists>a m. a \<in> set obs \<and> account_id a = k
                 \<and> ?news = [(new_record p ty a at)\<lparr>rec_id := m\<rparr>]"
    if "k \<in> account_id ` set obs" "\<forall>r\<in>set (key_rows st (p, ty, k)). is_resolved r"
    using fresh_records_one [OF d that(1)] that(2) by (simp add: no_open_key)
  have none: "?news = []"
    if "\<not> (k \<in> account_id ` set obs \<and> (\<forall>r\<in>set (key_rows st (p, ty, k)). is_resolved r))"
    using that by (intro fresh_records_none) (simp add: no_open_key)
  from rows one none show ?thesis by blast
qed

lemma run_update_key:
  assumes "key_of r = (p, ty, k)"
  shows "run_update p V P at r = reconciled p ty (set (observed_keys V P ty)) at r"
  using assms by (auto simp: key_of_def run_update_def reconciled_def)

lemma run_update_resolved: "is_resolved r \<Longrightarrow> run_update p V P at r = r"
  by (simp add: run_update_def)

lemma Run_wf:
  assumes "wf_store st" "Run F st p at = Inr (sm', st')"
  shows "wf_store st'"
proof -
  from assms(2) obtain V P where "F p Vault = Inr V" "F p Platform = Inr P"
    by (rule Run_Inr)
  with assms show ?thesis by (auto elim: Run_records)
qed

lemma Run_key_rows:
  assumes wf: "wf_store st" and run: "Run F st p at = Inr (sm', st')"
    and V: "F p Vault = Inr V" and P: "F p Platform = Inr P"
    and dV: "distinct (account_ids V)" and dP: "distinct (account_ids P)"
  shows "\<exists>news. key_rows st' (p, ty, k) = map (run_update p V P at) (key_rows st (p, ty, k)) @ news
         \<and> (k \<in> set (observed_keys V P ty) \<and> (\<forall>r\<in>set (key_rows st (p, ty, k)). is_resolved r)
              \<longrightarrow> (\<exists>a m. a \<in> set (observed_accounts V P ty) \<and> account_id a = k
                      \<and> news = [(new_record p ty a at)\<lparr>rec_id := m\<rparr>]))
         \<and> (\<not> (k \<in> set (observed_keys V P ty) \<and> (\<forall>r\<in>set (key_rows st (p, ty, k)). is_resolved r))
              \<longrightarrow> news = [])"
proof -
  from run V P obtain sm1 st1 where
    r1: "reconcile p NotVaulted at (observed_accounts V P NotVaulted)
        (\<lparr>created = 0, updated = 0, resolved = 0\<rparr>, st) = Inr (sm1, st1)" and
    r2: "reconcile p Orphaned at (observed_accounts V P Orphaned) (sm1, st1) = Inr (sm', st')"
    by (rule Run_reconciles)
  have wf1: "wf_store st1" by (rule reconcile_Inr(3) [OF wf r1])
  have d: "distinct (map account_id (observed_accounts V P ty'))" for ty'
    using dV dP by (rule observed_accounts_distinct)
  have upd: "map (reconciled p ty (set (observed_keys V P ty)) at) (key_rows st' (p, ty, k))
           = map (run_update p V P at) (key_rows st' (p, ty, k))" for st'
    by (rule map_cong [OF refl]) (simp add: key_rows_def run_update_key)
  show ?thesis
  proof (cases ty)
    case NotVaulted
    have same: "key_rows st' (p, ty, k) = key_rows st1 (p, ty, k)"
      using reconcile_key_rows_other [OF wf1 r2, of p ty k] NotVaulted by simp
    from reconcile_key_rows_same [OF wf r1 d, of k]
    show ?thesis
      unfolding same NotVaulted [symmetric] observed_accounts_keys upd
      using NotVaulted by simp
  next
    case Orphaned
    have same: "key_rows st1 (p, ty, k) = key_rows st (p, ty, k)"
      using reconcile_key_rows_other [OF wf r1, of p ty k] Orphaned by simp
    from reconcile_key_rows_same [OF wf1 r2 d, of k]
    show ?thesis
      unfolding Orphaned [symmetric] same observed_accounts_keys upd
      using Orphaned by simp
  qed
qed

lemma open_unique_iff:
  "open_unique st \<longleftrightarrow>
     (\<forall>k. length (filter (\<lambda>r. \<not> is_resolved r \<and> key_of r = k) (records st)) \<le> 1)"
proof -
  let ?xs = "filter (\<lambda>r. \<not> is_resolved r) (records st)"
  have f: "filter (\<lambda>r. \<not> is_resolved r \<and> key_of r = k) (records st)
         = filter (\<lambda>r. key_of r = k) ?xs" for k
    by (simp add: conj_commute)
  have "distinct (map key_of xs) \<longleftrightarrow> (\<forall>k. length (filter (\<lambda>r. key_of r = k) xs) \<le> 1)"
    for xs :: "DiscrepancyRecord list"
  proof (induction xs)
    case Nil
    show ?case by simp
  next
    case (Cons x xs)
    show ?case
    proof
      assume d: "distinct (map key_of (x # xs))"
      then have "key_of x \<notin> key_of ` set xs" by simp
      then have "\<forall>r\<in>set xs. key_of r \<noteq> key_of x" by (metis imageI)
      then have "filter (\<lambda>r. key_of r = key_of x) xs = []"
        by (simp add: filter_empty_conv)
      with d Cons.IH show "\<forall>k. length (filter (\<lambda>r. key_of r = k) (x # xs)) \<le> 1"
        by auto
    next
      assume a: "\<forall>k. length (filter (\<lambda>r. key_of r = k) (x # xs)) \<le> 1"
      then have "length (filter (\<lambda>r. key_of r = key_of x) (x # xs)) \<le> 1" by blast
      then have "filter (\<lambda>r. key_of r = key_of x) xs = []" by simp
      then have n: "key_of x \<notin> key_of ` set xs" by (auto simp: filter_empty_conv)
      have "length (filter (\<lambda>r. key_of r = k) xs) \<le> 1" for k
        using a [rule_format, of k] by (simp split: if_splits)
      with Cons.IH n show "distinct (map key_of (x # xs))" by simp
    qed
  qed
  then show ?thesis unfolding open_unique_def f by blast
qed

text \<open>
  Claim C3. At most one record is open for a key \<open>(platform, discrepancy_type, account_id)\<close>
  at every point of the history. The empty history has the property. \<open>InsertRecord\<close> fails
  with \<open>ConflictError\<close>, and so inserts nothing, when an open record with the key of the new
  record exists. And from a history with the property, a successful \<open>InsertRecord\<close>, a
  \<open>TouchLastSeen\<close>, a successful \<open>MarkResolved\<close> and every reconciliation run that completes
  lead to a history with the property. (A run that fails returns no store: the history
  stays the one it was given.) By \<open>open_unique_iff\<close> the property is that for every key at
  most one record with \<open>is_resolved = false\<close> has it.
\<close>

theorem at_most_one_open_record_per_key:
  "open_unique \<lparr>records = [], next_id = n\<rparr>
   \<and> (list_ex (\<lambda>r. \<not> is_resolved r \<and> same_key r rec) (records st)
        \<longrightarrow> InsertRecord st rec = Inl ConflictError)
   \<and> (open_unique st \<longrightarrow>
         (\<forall>i st'. InsertRecord st rec = Inr (i, st') \<longrightarrow> open_unique st')
       \<and> open_unique (TouchLastSeen st j t)
       \<and> (\<forall>st'. MarkResolved st j' t' = Inr st' \<longrightarrow> open_unique st')
       \<and> (\<forall>sm st'. Run F st p at = Inr (sm, st') \<longrightarrow> open_unique st'))"
proof (intro conjI impI allI)
  show "open_unique \<lparr>records = [], next_id = n\<rparr>" by (simp add: open_unique_def)
  show "InsertRecord st rec = Inl ConflictError"
    if "list_ex (\<lambda>r. \<not> is_resolved r \<and> same_key r rec) (records st)"
    using that by (rule InsertRecord_conflict)
  show "open_unique st'" if "open_unique st" "InsertRecord st rec = Inr (i, st')" for i st'
    using that by (rule InsertRecord_open_unique)
  show "open_unique (TouchLastSeen st j t)" if "open_unique st"
    using that by (rule TouchLastSeen_open_unique)
  show "open_unique st'" if "open_unique st" "MarkResolved st j' t' = Inr st'" for st'
    using that by (rule MarkResolved_open_unique)
  show "open_unique st'" if "open_unique st" "Run F st p at = Inr (sm, st')" for sm st'
    using that(2,1) by (rule Run_open_unique)
qed

text \<open>
  Timestamps. A run at a time not before the time up to which the history was written
  leaves a history written up to the time of the run, in the order section 3 requires.
\<close>

lemma in_order_upto_mono: "in_order_upto t r \<Longrightarrow> t \<le> t' \<Longrightarrow> in_order_upto t' r"
  by (auto simp: in_order_upto_def split: option.splits)

lemma history_upto_mono: "history_upto t st \<Longrightarrow> t \<le> t' \<Longrightarrow> history_upto t' st"
  by (auto simp: history_upto_def list_all_iff intro: in_order_upto_mono)

lemma run_update_in_order:
  assumes "in_order_upto t r" "t \<le> at"
  shows "in_order_upto at (run_update p V P at r)"
  using assms
  by (auto simp: in_order_upto_def run_update_def set_last_seen_def set_resolved_def
      split: option.splits)

lemma Run_fresh_records:
  assumes wf: "wf_store st" and run: "Run F st p at = Inr (sm', st')"
    and V: "F p Vault = Inr V" and P: "F p Platform = Inr P"
  obtains fresh where
    "records st' = map (run_update p V P at) (records st) @ fresh"
    "\<forall>f\<in>set fresh. platform f = p \<and> \<not> is_resolved f \<and> resolved_at f = None
        \<and> first_detected f = at \<and> last_seen f = at"
proof -
  from run V P obtain sm1 st1 where
    r1: "reconcile p NotVaulted at (observed_accounts V P NotVaulted)
        (\<lparr>created = 0, updated = 0, resolved = 0\<rparr>, st) = Inr (sm1, st1)" and
    r2: "reconcile p Orphaned at (observed_accounts V P Orphaned) (sm1, st1) = Inr (sm', st')"
    by (rule Run_reconciles)
  let ?fN = "fresh_records (openByKey (GetOpenRecords st p NotVaulted)) p NotVaulted at
               (observed_accounts V P NotVaulted) (next_id st)"
  let ?fO = "fresh_records (openByKey (GetOpenRecords st1 p Orphaned)) p Orphaned at
               (observed_accounts V P Orphaned) (next_id st1)"
  have s1: "records st1 = map (reconciled p NotVaulted (set (observed_keys V P NotVaulted)) at)
                              (records st) @ ?fN"
    using reconcile_Inr(1) [OF wf r1] by (simp add: observed_accounts_keys)
  have wf1: "wf_store st1" by (rule reconcile_Inr(3) [OF wf r1])
  have s2: "records st' = map (reconciled p Orphaned (set (observed_keys V P Orphaned)) at)
                              (records st1) @ ?fO"
    using reconcile_Inr(1) [OF wf1 r2] by (simp add: observed_accounts_keys)
  have fN: "\<forall>f\<in>set ?fN. platform f = p \<and> discrepancy_type f = NotVaulted \<and> \<not> is_resolved f
               \<and> resolved_at f = None \<and> first_detected f = at \<and> last_seen f = at"
    by (auto dest: fresh_records_fields)
  have fO: "\<forall>f\<in>set ?fO. platform f = p \<and> discrepancy_type f = Orphaned \<and> \<not> is_resolved f
               \<and> resolved_at f = None \<and> first_detected f = at \<and> last_seen f = at"
    by (auto dest: fresh_records_fields)
  have keepN: "map (reconciled p Orphaned (set (observed_keys V P Orphaned)) at) ?fN = ?fN"
    using fN by (intro map_idI) (simp add: reconciled_other_type(1))
  have recs: "records st' = map (run_update p V P at) (records st) @ (?fN @ ?fO)"
    unfolding s2 s1 by (simp add: keepN reconciled_twice)
  have "\<forall>f\<in>set (?fN @ ?fO). platform f = p \<and> \<not> is_resolved f \<and> resolved_at f = None
        \<and> first_detected f = at \<and> last_seen f = at"
    using fN fO by auto
  with recs show thesis by (rule that)
qed

lemma Run_history_upto:
  assumes wf: "wf_store st" and run: "Run F st p at = Inr (sm', st')"
    and h: "history_upto t st" and le: "t \<le> at"
  shows "history_upto at st'"
proof -
  from run obtain V P where V: "F p Vault = Inr V" and P: "F p Platform = Inr P"
    by (rule Run_Inr)
  from wf run V P obtain fresh where
    recs: "records st' = map (run_update p V P at) (records st) @ fresh" and
    fr: "\<forall>f\<in>set fresh. platform f = p \<and> \<not> is_resolved f \<and> resolved_at f = None
        \<and> first_detected f = at \<and> last_seen f = at"
    by (rule Run_fresh_records)
  have old: "in_order_upto at (run_update p V P at r)" if "r \<in> set (records st)" for r
    using h that le by (auto simp: history_upto_def list_all_iff intro: run_update_in_order)
  have new: "in_order_upto at f" if "f \<in> set fresh" for f
    using fr that by (simp add: in_order_upto_def)
  show ?thesis
    unfolding history_upto_def recs using old new by (auto simp: list_all_iff)
qed

text \<open>
  So the histories that runs in the order of their timestamps build, from the empty
  history or from any history in order, are in order, well-formed, and have at most one
  open record per key.
\<close>

lemma run_all_history:
  assumes "wf_store st" "open_unique st" "history_upto t st"
    and "sorted (t # map (\<lambda>(F, p, at). at) rs)"
  shows "wf_store (run_all st rs) \<and> open_unique (run_all st rs)
         \<and> history_upto (last (t # map (\<lambda>(F, p, at). at) rs)) (run_all st rs)"
  using assms
proof (induction rs arbitrary: st t)
  case Nil
  then show ?case by simp
next
  case (Cons r rs)
  obtain F p at where r: "r = (F, p, at)" by (cases r)
  from Cons.prems(4) r have le: "t \<le> at" and srt: "sorted (at # map (\<lambda>(F, p, at). at) rs)"
    by simp_all
  have l: "last (t # map (\<lambda>(F, p, at). at) (r # rs)) = last (at # map (\<lambda>(F, p, at). at) rs)"
    using r by simp
  show ?case
  proof (cases "Run F st p at")
    case (Inl e)
    have "history_upto at st" using Cons.prems(3) le by (rule history_upto_mono)
    from Cons.IH [OF Cons.prems(1,2) this srt] Inl r l show ?thesis by simp
  next
    case (Inr res)
    obtain sm st' where res: "res = (sm, st')" by (cases res)
    have run: "Run F st p at = Inr (sm, st')" using Inr res by simp
    have "wf_store st'" by (rule Run_wf [OF Cons.prems(1) run])
    moreover have "open_unique st'" by (rule Run_open_unique [OF run Cons.prems(2)])
    moreover have "history_upto at st'" by (rule Run_history_upto [OF Cons.prems(1) run Cons.prems(3) le])
    ultimately show ?thesis
      using Cons.IH [of st' at] srt run r l by simp
  qed
qed

lemma run_all_from_empty:
  assumes "sorted (t # map (\<lambda>(F, p, at). at) rs)"
  shows "wf_store (run_all \<lparr>records = [], next_id = n\<rparr> rs)
         \<and> open_unique (run_all \<lparr>records = [], next_id = n\<rparr> rs)
         \<and> history_upto (last (t # map (\<lambda>(F, p, at). at) rs)) (run_all \<lparr>records = [], next_id = n\<rparr> rs)"
  by (rule run_all_history [OF _ _ _ assms])
     (simp_all add: wf_store_def open_unique_def history_upto_def)


lemma Run_observed_after_resolved:
  assumes "wf_store st" "Run F st p at = Inr (sm', st')" "F p Vault = Inr V" "F p Platform = Inr P"
    "distinct (account_ids V)" "distinct (account_ids P)"
    "k \<in> set (observed_keys V P ty)" "\<forall>r\<in>set (key_rows st (p, ty, k)). is_resolved r"
  shows "\<exists>a m. a \<in> set (observed_accounts V P ty) \<and> account_id a = k \<and>
           key_rows st' (p, ty, k)
             = key_rows st (p, ty, k) @ [(new_record p ty a at)\<lparr>rec_id := m\<rparr>]"
proof -
  have "map (run_update p V P at) (key_rows st (p, ty, k)) = key_rows st (p, ty, k)"
    using assms(8) by (intro map_idI) (simp add: run_update_resolved)
  with Run_key_rows [OF assms(1-6), of ty k] assms(7,8) show ?thesis by auto
qed

lemma Run_unobserved:
  assumes "wf_store st" "Run F st p at = Inr (sm', st')" "F p Vault = Inr V" "F p Platform = Inr P"
    "distinct (account_ids V)" "distinct (account_ids P)"
    "k \<notin> set (observed_keys V P ty)"
  shows "key_rows st' (p, ty, k) =
           map (\<lambda>r. if is_resolved r then r else set_resolved at r) (key_rows st (p, ty, k))"
proof -
  have "map (run_update p V P at) (key_rows st (p, ty, k))
        = map (\<lambda>r. if is_resolved r then r else set_resolved at r) (key_rows st (p, ty, k))"
    using assms(7)
    by (intro map_cong [OF refl]) (auto simp: key_rows_def key_of_def run_update_def)
  with Run_key_rows [OF assms(1-6), of ty k] assms(7) show ?thesis by auto
qed

text \<open>
  Claim C5. Take a key all of whose history rows are resolved (none, in the scenario of the
  tests), and three runs that complete one after the other: the first observes the key,
  the second does not, the third observes it again. Then the history of the key ends with
  exactly two more rows than it started with. The first of them is resolved, has
  \<open>first_detected\<close> equal to the time of the first run and \<open>resolved_at\<close> equal to the time
  of the second, and is the row the second run left: the third run has not changed it. The
  second is a new open record whose \<open>first_detected\<close> and \<open>last_seen\<close> are the time of the
  third run. The rows the key had before are still there, in front.
\<close>

theorem reappearance_opens_new_record:
  assumes wf: "wf_store st0"
    and hist: "\<forall>r\<in>set (key_rows st0 (p, ty, k)). is_resolved r"
    and run1: "Run F1 st0 p t1 = Inr (sm1, st1)"
    and run2: "Run F2 st1 p t2 = Inr (sm2, st2)"
    and run3: "Run F3 st2 p t3 = Inr (sm3, st3)"
    and f1: "F1 p Vault = Inr V1" "F1 p Platform = Inr P1"
            "distinct (account_ids V1)" "distinct (account_ids P1)"
    and f2: "F2 p Vault = Inr V2" "F2 p Platform = Inr P2"
            "distinct (account_ids V2)" "distinct (account_ids P2)"
    and f3: "F3 p Vault = Inr V3" "F3 p Platform = Inr P3"
            "distinct (account_ids V3)" "distinct (account_ids P3)"
    and detect: "k \<in> set (observed_keys V1 P1 ty)"
    and fixed: "k \<notin> set (observed_keys V2 P2 ty)"
    and reappear: "k \<in> set (observed_keys V3 P3 ty)"
  shows "\<exists>r1 r2.
           key_rows st3 (p, ty, k) = key_rows st0 (p, ty, k) @ [r1, r2]
         \<and> key_rows st2 (p, ty, k) = key_rows st0 (p, ty, k) @ [r1]
         \<and> is_resolved r1 \<and> first_detected r1 = t1 \<and> resolved_at r1 = Some t2
         \<and> \<not> is_resolved r2 \<and> first_detected r2 = t3 \<and> last_seen r2 = t3
         \<and> resolved_at r2 = None"
proof -
  let ?K = "(p, ty, k)"
  from Run_observed_after_resolved [OF wf run1 f1 detect hist] obtain a m where
    k1: "key_rows st1 ?K = key_rows st0 ?K @ [(new_record p ty a t1)\<lparr>rec_id := m\<rparr>]"
    by blast
  let ?n1 = "(new_record p ty a t1)\<lparr>rec_id := m\<rparr>"
  let ?r1 = "set_resolved t2 ?n1"
  have wf1: "wf_store st1" by (rule Run_wf [OF wf run1])
  have wf2: "wf_store st2" by (rule Run_wf [OF wf1 run2])
  have open1: "\<not> is_resolved ?n1" by (simp add: new_record_def)
  have "map (\<lambda>r. if is_resolved r then r else set_resolved t2 r) (key_rows st0 ?K) = key_rows st0 ?K"
    using hist by (intro map_idI) simp
  with Run_unobserved [OF wf1 run2 f2 fixed] k1 open1 have
    k2: "key_rows st2 ?K = key_rows st0 ?K @ [?r1]"
    by simp
  have all2: "\<forall>r\<in>set (key_rows st2 ?K). is_resolved r"
    unfolding k2 using hist by simp
  from Run_observed_after_resolved [OF wf2 run3 f3 reappear all2] obtain b n where
    k3: "key_rows st3 ?K = key_rows st2 ?K @ [(new_record p ty b t3)\<lparr>rec_id := n\<rparr>]"
    by blast
  let ?r2 = "(new_record p ty b t3)\<lparr>rec_id := n\<rparr>"
  have "key_rows st3 ?K = key_rows st0 ?K @ [?r1, ?r2]" using k3 k2 by simp
  moreover have "is_resolved ?r1" "first_detected ?r1 = t1" "resolved_at ?r1 = Some t2"
    by (simp_all add: set_resolved_def new_record_def)
  moreover have "\<not> is_resolved ?r2" "first_detected ?r2 = t3" "last_seen ?r2 = t3"
    "resolved_at ?r2 = None"
    by (simp_all add: new_record_def)
  ultimately show ?thesis using k2 by blast
qed

lemmas engine_defs =
  Run_def reconcile_def Compare_def members_def account_ids_def GetOpenRecords_def openByKey_def
  InsertRecord_def TouchLastSeen_def MarkResolved_def touch_def resolve_def new_record_def
  same_key_def fetch_from_def acct_def empty_store_def discrepancy_D_def
  store_detected_def store_resolved_def store_reappeared_def

text \<open>
  The three theorems at the scenario of the tests: the stores named there are the results
  of the three runs.
\<close>

theorem at_most_one_open_record_per_key_witness:
  "open_unique store_detected
   \<and> InsertRecord store_detected (new_record ''azure'' NotVaulted (acct ''D'') 15) = Inl ConflictError
   \<and> open_unique (TouchLastSeen store_detected 1 15)
   \<and> Run (fetch_from [acct ''D''] [acct ''D'']) store_detected ''azure'' 20
        = Inr (\<lparr>created = 0, updated = 0, resolved = 1\<rparr>, store_resolved)
   \<and> open_unique store_resolved"
proof -
  have inv: "open_unique store_detected"
    by (simp add: open_unique_def store_detected_def discrepancy_D_def)
  have ex: "list_ex (\<lambda>r. \<not> is_resolved r \<and> same_key r (new_record ''azure'' NotVaulted (acct ''D'') 15))
              (records store_detected)"
    by (simp add: engine_defs)
  have run: "Run (fetch_from [acct ''D''] [acct ''D'']) store_detected ''azure'' 20
        = Inr (\<lparr>created = 0, updated = 0, resolved = 1\<rparr>, store_resolved)"
    by (simp add: engine_defs)
  show ?thesis
    using inv ex run
      at_most_one_open_record_per_key [where st = store_detected
        and rec = "new_record ''azure'' NotVaulted (acct ''D'') 15" and j = 1 and t = 15
        and F = "fetch_from [acct ''D''] [acct ''D'']" and p = "''azure''" and at = 20]
    by blast
qed


theorem reappearance_opens_new_record_witness:
  "Run (fetch_from [] [acct ''D'']) empty_store ''azure'' 10
     = Inr (\<lparr>created = 1, updated = 0, resolved = 0\<rparr>, store_detected)
   \<and> Run (fetch_from [acct ''D''] [acct ''D'']) store_detected ''azure'' 20
     = Inr (\<lparr>created = 0, updated = 0, resolved = 1\<rparr>, store_resolved)
   \<and> Run (fetch_from [] [acct ''D'']) store_resolved ''azure'' 30
     = Inr (\<lparr>created = 1, updated = 0, resolved = 0\<rparr>, store_reappeared)
   \<and> (\<exists>r1 r2.
         key_rows store_reappeared (''azure'', NotVaulted, ''D'')
           = key_rows empty_store (''azure'', NotVaulted, ''D'') @ [r1, r2]
       \<and> key_rows store_resolved (''azure'', NotVaulted, ''D'')
           = key_rows empty_store (''azure'', NotVaulted, ''D'') @ [r1]
       \<and> is_resolved r1 \<and> first_detected r1 = 10 \<and> resolved_at r1 = Some 20
       \<and> \<not> is_resolved r2 \<and> first_detected r2 = 30 \<and> last_seen r2 = 30
       \<and> resolved_at r2 = None)"
proof -
  have wf: "wf_store empty_store" by (simp add: wf_store_def empty_store_def)
  have hist: "\<forall>r\<in>set (key_rows empty_store (''azure'', NotVaulted, ''D'')). is_resolved r"
    by (simp add: key_rows_def empty_store_def)
  have run1: "Run (fetch_from [] [acct ''D'']) empty_store ''azure'' 10
               = Inr (\<lparr>created = 1, updated = 0, resolved = 0\<rparr>, store_detected)"
    by (simp add: engine_defs)
  have run2: "Run (fetch_from [acct ''D''] [acct ''D'']) store_detected ''azure'' 20
               = Inr (\<lparr>created = 0, updated = 0, resolved = 1\<rparr>, store_resolved)"
    by (simp add: engine_defs)
  have run3: "Run (fetch_from [] [acct ''D'']) store_resolved ''azure'' 30
               = Inr (\<lparr>created = 1, updated = 0, resolved = 0\<rparr>, store_reappeared)"
    by (simp add: engine_defs)
  have f1: "fetch_from [] [acct ''D''] ''azure'' Vault = Inr []"
    "fetch_from [] [acct ''D''] ''azure'' Platform = Inr [acct ''D'']"
    "distinct (account_ids [])" "distinct (account_ids [acct ''D''])"
    by (simp_all add: fetch_from_def account_ids_def)
  have f2: "fetch_from [acct ''D''] [acct ''D''] ''azure'' Vault = Inr [acct ''D'']"
    "fetch_from [acct ''D''] [acct ''D''] ''azure'' Platform = Inr [acct ''D'']"
    "distinct (account_ids [acct ''D''])" "distinct (account_ids [acct ''D''])"
    by (simp_all add: fetch_from_def account_ids_def)
  have seen: "''D'' \<in> set (observed_keys [] [acct ''D''] NotVaulted)"
    by (simp add: observed_keys_def Compare_def account_ids_def acct_def)
  have unseen: "''D'' \<notin> set (observed_keys [acct ''D''] [acct ''D''] NotVaulted)"
    by (simp add: observed_keys_def Compare_def account_ids_def acct_def)
  show ?thesis
    using run1 run2 run3
      reappearance_opens_new_record [OF wf hist run1 run2 run3 f1 f2 f1 seen unseen seen]
    by blast
qed

lemma touch_keeps [simp]:
  "same_key (touch i at r) x = same_key r x"
  by (simp add: same_key_iff)

lemma observe_all_succeeds:
  assumes "distinct (map account_id obs)"
    and "\<forall>a\<in>set obs. opn (account_id a) = None \<longrightarrow>
           \<not> list_ex (\<lambda>r. \<not> is_resolved r \<and> same_key r (new_record p ty a at)) (records st)"
  shows "\<exists>res. observe_all opn p ty at obs (sm, st) = Inr res"
  using assms
proof (induction obs arbitrary: sm st)
  case Nil
  show ?case by simp
next
  case (Cons a as)
  show ?case
  proof (cases "opn (account_id a)")
    case (Some r)
    have "\<forall>b\<in>set as. opn (account_id b) = None \<longrightarrow>
           \<not> list_ex (\<lambda>r. \<not> is_resolved r \<and> same_key r (new_record p ty b at))
                (records (TouchLastSeen st (rec_id r) at))"
      using Cons.prems(2) by (simp add: TouchLastSeen_def list_ex_iff)
    with Cons.prems(1) have
      "\<exists>res. observe_all opn p ty at as (sm\<lparr>updated := Suc (updated sm)\<rparr>,
                 TouchLastSeen st (rec_id r) at) = Inr res"
      by (intro Cons.IH) simp_all
    with Some show ?thesis by simp
  next
    case None
    let ?new = "(new_record p ty a at)\<lparr>rec_id := next_id st\<rparr>"
    let ?st1 = "st\<lparr>records := records st @ [?new], next_id := Suc (next_id st)\<rparr>"
    from None Cons.prems(2) have
      ins: "InsertRecord st (new_record p ty a at) = Inr (next_id st, ?st1)"
      by (simp add: InsertRecord_def)
    have other: "\<not> same_key ?new (new_record p ty b at)" if "b \<in> set as" for b
      using that Cons.prems(1) by (auto simp: same_key_def new_record_def)
    have "\<forall>b\<in>set as. opn (account_id b) = None \<longrightarrow>
           \<not> list_ex (\<lambda>r. \<not> is_resolved r \<and> same_key r (new_record p ty b at)) (records ?st1)"
      using Cons.prems(2) other by (simp add: list_ex_iff)
    with Cons.prems(1) have
      "\<exists>res. observe_all opn p ty at as (sm\<lparr>created := Suc (created sm)\<rparr>, ?st1) = Inr res"
      by (intro Cons.IH) simp_all
    with None ins show ?thesis by simp
  qed
qed

lemma resolve_keeps_other:
  "rec_id x \<noteq> i \<Longrightarrow> resolve i at x = x"
  by (simp add: resolve_def)

lemma resolve_all_succeeds:
  assumes "distinct (map rec_id opens)"
    and "\<forall>r\<in>set opens. account_id r \<notin> set ks \<longrightarrow>
           list_ex (\<lambda>x. rec_id x = rec_id r \<and> \<not> is_resolved x) (records st)"
  shows "\<exists>res. resolve_all at ks opens (sm, st) = Inr res"
  using assms
proof (induction opens arbitrary: sm st)
  case Nil
  show ?case by simp
next
  case (Cons r rs)
  show ?case
  proof (cases "account_id r \<in> set ks")
    case True
    from Cons.prems have "\<exists>res. resolve_all at ks rs (sm, st) = Inr res"
      by (intro Cons.IH) simp_all
    with True show ?thesis by simp
  next
    case False
    let ?st1 = "st\<lparr>records := map (resolve (rec_id r) at) (records st)\<rparr>"
    from False Cons.prems(2) have m: "MarkResolved st (rec_id r) at = Inr ?st1"
      by (simp add: MarkResolved_def)
    have "list_ex (\<lambda>x. rec_id x = rec_id r' \<and> \<not> is_resolved x) (records ?st1)"
      if r': "r' \<in> set rs" "account_id r' \<notin> set ks" for r'
    proof -
      from r' Cons.prems(2) obtain x where
        x: "x \<in> set (records st)" "rec_id x = rec_id r'" "\<not> is_resolved x"
        by (auto simp: list_ex_iff)
      from Cons.prems(1) have "rec_id r \<notin> rec_id ` set rs" by simp
      with r'(1) have "rec_id r' \<noteq> rec_id r" by (metis imageI)
      with x have same: "resolve (rec_id r) at x = x" by (simp add: resolve_keeps_other)
      have "resolve (rec_id r) at x \<in> set (records ?st1)" using x(1) by simp
      with same x have "resolve (rec_id r) at x \<in> set (records ?st1)
                   \<and> rec_id (resolve (rec_id r) at x) = rec_id r'
                   \<and> \<not> is_resolved (resolve (rec_id r) at x)"
        by simp
      then show ?thesis unfolding list_ex_iff by blast
    qed
    with Cons.prems(1) have
      "\<exists>res. resolve_all at ks rs (sm\<lparr>resolved := Suc (resolved sm)\<rparr>, ?st1) = Inr res"
      by (intro Cons.IH) simp_all
    with False m show ?thesis by simp
  qed
qed

lemma open_keys_distinct:
  assumes "open_unique st"
  shows "distinct (map account_id (GetOpenRecords st p ty))"
proof -
  have g: "GetOpenRecords st p ty
        = filter (\<lambda>r. platform r = p \<and> discrepancy_type r = ty)
            (filter (\<lambda>r. \<not> is_resolved r) (records st))"
    by (auto simp: GetOpenRecords_def intro: filter_cong)
  have "distinct (map account_id (filter (\<lambda>r. platform r = p \<and> discrepancy_type r = ty) xs))"
    if "distinct (map key_of xs)" for xs :: "DiscrepancyRecord list"
  using that
  proof (induction xs)
    case Nil
    show ?case by simp
  next
    case (Cons x xs)
    from Cons.prems have n: "key_of x \<notin> key_of ` set xs" and dx: "distinct (map key_of xs)"
      by simp_all
    have "account_id x \<noteq> account_id y"
      if "y \<in> set xs" "platform y = p \<and> discrepancy_type y = ty"
         "platform x = p \<and> discrepancy_type x = ty" for y
    proof
      assume "account_id x = account_id y"
      with that have "key_of x = key_of y" by (simp add: key_of_def)
      with n that(1) show False by (metis imageI)
    qed
    with Cons.IH [OF dx] show ?case by auto
  qed
  from this [of "filter (\<lambda>r. \<not> is_resolved r) (records st)"] assms
  show ?thesis unfolding g open_unique_def by blast
qed

lemma touch_in_keeps [simp]:
  "rec_id (touch_in T at r) = rec_id r" "is_resolved (touch_in T at r) = is_resolved r"
  by (simp_all add: touch_in_eq)

lemma reconcile_succeeds:
  assumes wf: "wf_store st" and inv: "open_unique st" and d: "distinct (map account_id obs)"
  shows "\<exists>res. reconcile p ty at obs (sm, st) = Inr res"
proof -
  let ?opens = "GetOpenRecords st p ty"
  let ?opn = "openByKey ?opens"
  have keys: "distinct (map account_id ?opens)" by (rule open_keys_distinct [OF inv])
  have "\<not> list_ex (\<lambda>r. \<not> is_resolved r \<and> same_key r (new_record p ty a at)) (records st)"
    if "?opn (account_id a) = None" for a
  proof
    assume "list_ex (\<lambda>r. \<not> is_resolved r \<and> same_key r (new_record p ty a at)) (records st)"
    then obtain r where "r \<in> set (records st)" "\<not> is_resolved r"
      "same_key r (new_record p ty a at)"
      by (auto simp: list_ex_iff)
    then have "r \<in> set ?opens" "account_id r = account_id a"
      by (simp_all add: GetOpenRecords_iff same_key_def new_record_def)
    then have "account_id a \<in> account_id ` set ?opens" by (metis imageI)
    with that show False by (simp add: openByKey_None)
  qed
  then have "\<forall>a\<in>set obs. ?opn (account_id a) = None \<longrightarrow>
           \<not> list_ex (\<lambda>r. \<not> is_resolved r \<and> same_key r (new_record p ty a at)) (records st)"
    by blast
  with d obtain sm1 st1 where o: "observe_all ?opn p ty at obs (sm, st) = Inr (sm1, st1)"
    using observe_all_succeeds [of obs ?opn p ty at st sm] by auto
  have recs: "records st1 = map (touch_in (touched_ids ?opn obs) at) (records st)
                @ fresh_records ?opn p ty at obs (next_id st)"
    using observe_all_Inr_conj [OF o] by simp
  from wf have "distinct (map rec_id (records st))" by (simp add: wf_store_def)
  then have ids: "distinct (map rec_id ?opens)"
    by (simp add: GetOpenRecords_def distinct_map_filter)
  have "list_ex (\<lambda>x. rec_id x = rec_id r \<and> \<not> is_resolved x) (records st1)"
    if "r \<in> set ?opens" for r
  proof -
    from that have "r \<in> set (records st)" "\<not> is_resolved r" by (simp_all add: GetOpenRecords_iff)
    then have "touch_in (touched_ids ?opn obs) at r \<in> set (records st1)"
      unfolding recs by simp
    moreover have "rec_id (touch_in (touched_ids ?opn obs) at r) = rec_id r
                   \<and> \<not> is_resolved (touch_in (touched_ids ?opn obs) at r)"
      using \<open>\<not> is_resolved r\<close> by simp
    ultimately show ?thesis unfolding list_ex_iff by blast
  qed
  with ids obtain res where
    "resolve_all at (map account_id obs) ?opens (sm1, st1) = Inr res"
    using resolve_all_succeeds [of ?opens "map account_id obs" st1 at sm1] by auto
  with keys o show ?thesis by (simp add: reconcile_def)
qed

text \<open>A run on a well-formed store that has at most one open record per key succeeds
  whenever both sets can be fetched (and are sets: no key twice).\<close>

lemma Run_succeeds:
  assumes wf: "wf_store st" and inv: "open_unique st"
    and V: "F p Vault = Inr V" and P: "F p Platform = Inr P"
    and dV: "distinct (account_ids V)" and dP: "distinct (account_ids P)"
  shows "\<exists>sm st'. Run F st p at = Inr (sm, st')"
proof -
  have d: "distinct (map account_id (observed_accounts V P ty))" for ty
    using dV dP by (rule observed_accounts_distinct)
  from reconcile_succeeds [OF wf inv d] obtain sm1 st1 where
    r1: "reconcile p NotVaulted at (observed_accounts V P NotVaulted)
           (\<lparr>created = 0, updated = 0, resolved = 0\<rparr>, st) = Inr (sm1, st1)"
    by (metis surj_pair)
  have wf1: "wf_store st1" by (rule reconcile_Inr(3) [OF wf r1])
  have inv1: "open_unique st1" by (rule reconcile_open_unique [OF r1 inv])
  from reconcile_succeeds [OF wf1 inv1 d] obtain sm2 st2 where
    r2: "reconcile p Orphaned at (observed_accounts V P Orphaned) (sm1, st1) = Inr (sm2, st2)"
    by (metis surj_pair)
  from r1 r2 V P show ?thesis
    by (auto simp: Run_def observed_accounts_def split: prod.splits)
qed

end
